theory Spec2Isabelle
  imports Main "HOL-Library.Multiset" "HOL-Library.AList" "HOL-Library.Char_ord"
    "HOL-Library.List_Lexorder"
begin

chapter \<open>Model\<close>

section \<open>Go integers and time\<close>

text \<open>
  Go's \<open>int\<close> and \<open>time.Duration\<close> are 64-bit signed integers here. They are modelled as
  \<open>int\<close>, with the wrap-around of an addition written out by \<open>wrap64\<close> wherever the sum
  can leave the 64-bit range. Instants and durations are counted in nanoseconds; every
  reading of the clock (\<open>time.Now()\<close>, \<open>time.Since\<close>) is a parameter of the function
  that reads it.
\<close>

definition wrap64 :: "int \<Rightarrow> int" where
  "wrap64 x = (x + 2 ^ 63) mod 2 ^ 64 - 2 ^ 63"

definition in_int64 :: "int \<Rightarrow> bool" where
  "in_int64 x = (- (2 ^ 63) \<le> x \<and> x < 2 ^ 63)"

text \<open>Go's \<open>/\<close> on integers truncates towards zero; a zero divisor panics at the caller.\<close>

definition go_quot :: "int \<Rightarrow> int \<Rightarrow> int" where
  "go_quot a b = sgn a * sgn b * (\<bar>a\<bar> div \<bar>b\<bar>)"

definition Second :: int where
  "Second = 1000000000"

definition Minute :: int where
  "Minute = 60 * Second"

datatype panic = DivideByZero

section \<open>Rate limiter (package ratelimit)\<close>

record ratelimit_Config =
  Enabled :: bool
  RequestsPerMinute :: int

text \<open>The mutex of the limiter is free on entry to and on exit from \<open>Wait\<close> and is never
  taken twice by one call, so it is not part of the state.\<close>

record Limiter =
  enabled :: bool
  requestsPerMinute :: int
  interval :: int
  tokens :: int
  lastRefill :: int

definition min_go :: "int \<Rightarrow> int \<Rightarrow> int" where
  "min_go a b = (if a < b then a else b)"

definition NewLimiter :: "ratelimit_Config \<Rightarrow> int \<Rightarrow> Limiter" where
  "NewLimiter config now =
     (let requestsPerMinute = (if RequestsPerMinute config \<le> 0 then 60
                               else RequestsPerMinute config);
          interval = go_quot Minute requestsPerMinute
      in \<lparr> enabled = Enabled config,
           requestsPerMinute = requestsPerMinute,
           interval = interval,
           tokens = requestsPerMinute,
           lastRefill = now \<rparr>)"

text \<open>
  \<open>Wait l now1 now2 now3\<close>: \<open>now1\<close> is the clock at the first \<open>time.Since\<close>, \<open>now2\<close> at
  the second one (read only when no token is left) and \<open>now3\<close> at the \<open>time.Now()\<close> after
  the sleep. The result is the limiter after the call and the duration slept, or the
  panic of the integer division \<open>elapsed / l.interval\<close> when the interval is zero (the
  limiter is then left as it was: nothing has been assigned yet).
\<close>

definition Wait :: "Limiter \<Rightarrow> int \<Rightarrow> int \<Rightarrow> int \<Rightarrow> panic + (Limiter \<times> int)" where
  "Wait l now1 now2 now3 =
     (if \<not> enabled l then Inr (l, 0)
      else if interval l = 0 then Inl DivideByZero
      else
        let elapsed = now1 - lastRefill l;
            tokensToAdd = go_quot elapsed (interval l);
            l1 = (if tokensToAdd > 0
                  then l\<lparr> tokens := min_go (requestsPerMinute l) (wrap64 (tokens l + tokensToAdd)),
                         lastRefill := lastRefill l + tokensToAdd * interval l \<rparr>
                  else l);
            waitTime = interval l1 - (now2 - lastRefill l1);
            slept = (if tokens l1 \<le> 0 \<and> waitTime > 0 then waitTime else 0);
            l2 = (if tokens l1 \<le> 0 then l1\<lparr> tokens := 1, lastRefill := now3 \<rparr> else l1)
        in Inr (l2\<lparr> tokens := tokens l2 - 1 \<rparr>, slept))"

text \<open>The token bound of the data model: \<open>tokens\<close> lies in \<open>[0, capacity]\<close>.\<close>

definition tokens_bounded :: "Limiter \<Rightarrow> bool" where
  "tokens_bounded l = (0 \<le> tokens l \<and> tokens l \<le> requestsPerMinute l)"

section \<open>Proxy pool (package crawler, proxy.go)\<close>

record ProxyInfo =
  IP :: string
  Port :: string
  Protocol :: string
  Username :: string
  Password :: string
  LastUsed :: int
  FailCount :: int
  IsValid :: bool

text \<open>
  The pool is a slice of pointers to records. Each entry is an object of its own, so the
  slice is modelled as the list of the records' values, and an assignment through one
  of the pointers as an update of the list at its position. Each of \<open>AddProxy\<close>,
  \<open>RemoveProxy\<close> and \<open>GetProxy\<close> takes the pool's lock once and releases it on return.
  The persist \<open>go p.SaveProxies()\<close> runs on its own goroutine and writes the file only;
  it is not part of the pool's state.
\<close>

record ProxyPool =
  proxies :: "ProxyInfo list"
  proxyFile :: string
  testURL :: string
  maxFailures :: int





text \<open>
  \<open>GetProxy p rnd now\<close>: \<open>validProxies\<close> holds pointers into the pool, here the positions
  of the entries; \<open>rand.Intn(n)\<close> returns some number below \<open>n\<close>, here \<open>rnd mod n\<close> for
  an arbitrary \<open>rnd\<close>; \<open>now\<close> is the clock. The result is the selected record (\<open>None\<close>
  for \<open>nil\<close>) and the pool, in which that record's \<open>LastUsed\<close> has been set.
\<close>

definition usable :: "ProxyPool \<Rightarrow> ProxyInfo \<Rightarrow> bool" where
  "usable p proxy = (IsValid proxy \<and> FailCount proxy < maxFailures p)"

definition GetProxy :: "ProxyPool \<Rightarrow> nat \<Rightarrow> int \<Rightarrow> ProxyInfo option \<times> ProxyPool" where
  "GetProxy p rnd now =
     (let validProxies = filter (\<lambda>i. usable p (proxies p ! i)) [0..<length (proxies p)]
      in if length validProxies = 0 then (None, p)
         else
           let i = validProxies ! (rnd mod length validProxies);
               selectedProxy = (proxies p ! i)\<lparr> LastUsed := now \<rparr>
           in (Some selectedProxy, p\<lparr> proxies := (proxies p)[i := selectedProxy] \<rparr>))"





text \<open>A pool of two proxies for the concrete runs below: the first has reached the
  failure threshold, the second is usable.\<close>

definition proxy_a :: ProxyInfo where
  "proxy_a = \<lparr> IP = ''10.0.0.1'', Port = ''8080'', Protocol = ''http'', Username = '''',
               Password = '''', LastUsed = 0, FailCount = 3, IsValid = True \<rparr>"

definition proxy_b :: ProxyInfo where
  "proxy_b = \<lparr> IP = ''10.0.0.2'', Port = ''1080'', Protocol = ''socks5'', Username = ''u'',
               Password = ''p'', LastUsed = 5, FailCount = 1, IsValid = True \<rparr>"

definition pool_ab :: ProxyPool where
  "pool_ab = \<lparr> proxies = [proxy_a, proxy_b], proxyFile = ''proxies.json'',
               testURL = ''http://example.org'', maxFailures = 3 \<rparr>"

section \<open>Checkpoint store (package checkpoint)\<close>

record Stats =
  TotalUsers :: int
  TotalVideos :: int
  TotalComments :: int
  TotalProducts :: int

text \<open>
  A Go map is \<open>nil\<close> (\<open>None\<close>) or allocated. An allocated map is the list of its entries,
  one entry for each key; the order of the list means nothing, a map is read by key and
  marshalled in the order of its keys. Reading a key that is not there, or reading a
  \<open>nil\<close> map, gives the zero value; assigning to an entry of a \<open>nil\<close> map panics.
\<close>

type_synonym 'v gomap = "(string \<times> 'v) list option"

record Data =
  Platform :: string
  StartTime :: int
  LastUpdateTime :: int
  ProcessedUsers :: "bool gomap"
  ProcessedVideos :: "bool gomap"
  UserCursors :: "string gomap"
  CommentCursors :: "string gomap"
  Stats :: Stats

record checkpoint_Config =
  ckpt_Enabled :: bool
  Interval :: int
  File :: string

text \<open>
  The fields \<open>enabled\<close>, \<open>interval\<close> and \<open>file\<close> of the manager are written
  \<open>ckpt_enabled\<close>, \<open>ckpt_interval\<close> and \<open>ckpt_file\<close> (the limiter has fields of the first two
  names, and the third is a keyword). The field \<open>mutex\<close> is the state
  of the manager's \<open>sync.Mutex\<close>: \<open>True\<close> while it is held. A \<open>sync.Mutex\<close> is not
  reentrant: \<open>Lock\<close> on a held mutex waits until it is released.
\<close>

record Manager =
  ckpt_enabled :: bool
  ckpt_interval :: int
  ckpt_file :: string
  data :: Data
  mutex :: bool
  lastSave :: int

text \<open>
  The outside of the manager. A disk maps a path to the content of the file there;
  \<open>write_fails\<close> and \<open>read_fails\<close> say at which paths \<open>os.WriteFile\<close> and \<open>os.ReadFile\<close>
  return an error. The functions of the manager take the JSON codec as a parameter:
  \<open>MarshalIndent\<close> encodes a snapshot (\<open>None\<close> for its error) and \<open>Unmarshal\<close> decodes a
  file's content into a zero-valued \<open>Data\<close> (\<open>None\<close> for its error). The codec of
  \<open>encoding/json\<close> is defined below.
\<close>

record 'b disk =
  files :: "string \<rightharpoonup> 'b"
  write_fails :: "string \<Rightarrow> bool"
  read_fails :: "string \<Rightarrow> bool"

record 'b codec =
  MarshalIndent :: "Data \<Rightarrow> 'b option"
  Unmarshal :: "'b \<Rightarrow> Data option"

datatype error = MarshalError | WriteError | ReadError | UnmarshalError

datatype panic_value = NilMapAssignment

text \<open>
  A call returns a value and leaves a state, or it waits forever in \<open>mutex.Lock\<close>, or
  it panics. \<open>Blocked\<close> holds the state in which it waits. \<open>Panicked\<close> holds the state
  the panic leaves: the deferred \<open>Unlock\<close> has run, the assignment that panicked has
  not.
\<close>

datatype ('r, 's) outcome = Returned 'r 's | Blocked 's | Panicked panic_value 's

fun state_of :: "('r, 's) outcome \<Rightarrow> 's" where
  "state_of (Returned r s) = s"
| "state_of (Blocked s) = s"
| "state_of (Panicked p s) = s"

fun returned :: "('r, 's) outcome \<Rightarrow> bool" where
  "returned (Returned r s) = True"
| "returned (Blocked s) = False"
| "returned (Panicked p s) = False"

definition Unlock :: "Manager \<Rightarrow> Manager" where
  "Unlock m = m\<lparr> mutex := False \<rparr>"

definition NewManager :: "checkpoint_Config \<Rightarrow> int \<Rightarrow> int \<Rightarrow> int \<Rightarrow> Manager" where
  "NewManager config now1 now2 now3 =
     \<lparr> ckpt_enabled = ckpt_Enabled config,
       ckpt_interval = Interval config,
       ckpt_file = File config,
       data = \<lparr> Platform = '''',
                StartTime = now1,
                LastUpdateTime = now2,
                ProcessedUsers = Some [],
                ProcessedVideos = Some [],
                UserCursors = Some [],
                CommentCursors = Some [],
                Stats = \<lparr> TotalUsers = 0, TotalVideos = 0, TotalComments = 0,
                          TotalProducts = 0 \<rparr> \<rparr>,
       mutex = False,
       lastSave = now3 \<rparr>"

definition Load ::
  "'b codec \<Rightarrow> Manager \<Rightarrow> 'b disk \<Rightarrow> (error option, Manager \<times> 'b disk) outcome" where
  "Load json m d =
     (if \<not> ckpt_enabled m then Returned None (m, d)
      else if mutex m then Blocked (m, d)
      else
        let m1 = m\<lparr> mutex := True \<rparr> in
        case files d (ckpt_file m1) of
          None \<Rightarrow> Returned None (Unlock m1, d)
        | Some content \<Rightarrow>
            if read_fails d (ckpt_file m1) then Returned (Some ReadError) (Unlock m1, d)
            else
              (case Unmarshal json content of
                 None \<Rightarrow> Returned (Some UnmarshalError) (Unlock m1, d)
               | Some checkpointData \<Rightarrow>
                   Returned None (Unlock (m1\<lparr> data := checkpointData \<rparr>), d)))"

text \<open>\<open>Save json m d now1 now2\<close>: \<open>now1\<close> and \<open>now2\<close> are the two readings of
  \<open>time.Now()\<close>, for \<open>LastUpdateTime\<close> and for \<open>lastSave\<close>.\<close>

definition Save ::
  "'b codec \<Rightarrow> Manager \<Rightarrow> 'b disk \<Rightarrow> int \<Rightarrow> int \<Rightarrow>
     (error option, Manager \<times> 'b disk) outcome" where
  "Save json m d now1 now2 =
     (if \<not> ckpt_enabled m then Returned None (m, d)
      else if mutex m then Blocked (m, d)
      else
        let m1 = m\<lparr> mutex := True \<rparr>;
            m2 = m1\<lparr> data := (data m1)\<lparr> LastUpdateTime := now1 \<rparr> \<rparr> in
        case MarshalIndent json (data m2) of
          None \<Rightarrow> Returned (Some MarshalError) (Unlock m2, d)
        | Some content \<Rightarrow>
            if write_fails d (ckpt_file m2) then Returned (Some WriteError) (Unlock m2, d)
            else Returned None
                   (Unlock (m2\<lparr> lastSave := now2 \<rparr>),
                    d\<lparr> files := (files d)(ckpt_file m2 \<mapsto> content) \<rparr>))"

text \<open>
  \<open>CheckSave json m d now now1 now2\<close>: \<open>now\<close> is the clock read by \<open>time.Since\<close>. The
  source compares \<open>time.Since(m.lastSave).Seconds()\<close> with \<open>float64(m.interval)\<close>; here
  the elapsed nanoseconds are compared with the interval in nanoseconds. The two
  comparisons agree for intervals of up to some millions of seconds; for longer ones
  the sum of floats can round up to the interval a few nanoseconds before the elapsed
  time reaches it.
\<close>

definition save_due :: "Manager \<Rightarrow> int \<Rightarrow> bool" where
  "save_due m now = (now - lastSave m \<ge> ckpt_interval m * Second)"

definition CheckSave ::
  "'b codec \<Rightarrow> Manager \<Rightarrow> 'b disk \<Rightarrow> int \<Rightarrow> int \<Rightarrow> int \<Rightarrow>
     (error option, Manager \<times> 'b disk) outcome" where
  "CheckSave json m d now now1 now2 =
     (if \<not> ckpt_enabled m \<or> ckpt_interval m \<le> 0 then Returned None (m, d)
      else if save_due m now then Save json m d now1 now2
      else Returned None (m, d))"

text \<open>The deferred \<open>Unlock\<close> of the two marking functions runs when \<open>CheckSave\<close> has
  returned; its result is dropped.\<close>

definition MarkUserProcessed ::
  "'b codec \<Rightarrow> Manager \<Rightarrow> 'b disk \<Rightarrow> string \<Rightarrow> int \<Rightarrow> int \<Rightarrow> int \<Rightarrow>
     (unit, Manager \<times> 'b disk) outcome" where
  "MarkUserProcessed json m d userID now now1 now2 =
     (if \<not> ckpt_enabled m then Returned () (m, d)
      else if mutex m then Blocked (m, d)
      else
        let m1 = m\<lparr> mutex := True \<rparr> in
        case ProcessedUsers (data m1) of
          None \<Rightarrow> Panicked NilMapAssignment (Unlock m1, d)
        | Some entries \<Rightarrow>
            (let m2 = m1\<lparr> data := (data m1)\<lparr> ProcessedUsers :=
                        Some (AList.update userID True entries) \<rparr> \<rparr>;
                 m3 = m2\<lparr> data := (data m2)\<lparr> Stats := (Stats (data m2))\<lparr> TotalUsers :=
                        wrap64 (TotalUsers (Stats (data m2)) + 1) \<rparr> \<rparr> \<rparr> in
             case CheckSave json m3 d now now1 now2 of
               Returned err (m4, d') \<Rightarrow> Returned () (Unlock m4, d')
             | Blocked s \<Rightarrow> Blocked s
             | Panicked p s \<Rightarrow> Panicked p s))"

definition MarkVideoProcessed ::
  "'b codec \<Rightarrow> Manager \<Rightarrow> 'b disk \<Rightarrow> string \<Rightarrow> int \<Rightarrow> int \<Rightarrow> int \<Rightarrow>
     (unit, Manager \<times> 'b disk) outcome" where
  "MarkVideoProcessed json m d videoID now now1 now2 =
     (if \<not> ckpt_enabled m then Returned () (m, d)
      else if mutex m then Blocked (m, d)
      else
        let m1 = m\<lparr> mutex := True \<rparr> in
        case ProcessedVideos (data m1) of
          None \<Rightarrow> Panicked NilMapAssignment (Unlock m1, d)
        | Some entries \<Rightarrow>
            (let m2 = m1\<lparr> data := (data m1)\<lparr> ProcessedVideos :=
                        Some (AList.update videoID True entries) \<rparr> \<rparr>;
                 m3 = m2\<lparr> data := (data m2)\<lparr> Stats := (Stats (data m2))\<lparr> TotalVideos :=
                        wrap64 (TotalVideos (Stats (data m2)) + 1) \<rparr> \<rparr> \<rparr> in
             case CheckSave json m3 d now now1 now2 of
               Returned err (m4, d') \<Rightarrow> Returned () (Unlock m4, d')
             | Blocked s \<Rightarrow> Blocked s
             | Panicked p s \<Rightarrow> Panicked p s))"

text \<open>The readers take the lock, read and release it: they leave the manager as it is,
  and wait forever when the mutex is held.\<close>

definition lookup_bool :: "bool gomap \<Rightarrow> string \<Rightarrow> bool" where
  "lookup_bool mp k =
     (case mp of
        None \<Rightarrow> False
      | Some entries \<Rightarrow> (case map_of entries k of None \<Rightarrow> False | Some b \<Rightarrow> b))"

definition lookup_string :: "string gomap \<Rightarrow> string \<Rightarrow> string" where
  "lookup_string mp k =
     (case mp of
        None \<Rightarrow> ''''
      | Some entries \<Rightarrow> (case map_of entries k of None \<Rightarrow> '''' | Some s \<Rightarrow> s))"

definition IsUserProcessed :: "Manager \<Rightarrow> string \<Rightarrow> (bool, Manager) outcome" where
  "IsUserProcessed m userID =
     (if \<not> ckpt_enabled m then Returned False m
      else if mutex m then Blocked m
      else Returned (lookup_bool (ProcessedUsers (data m)) userID) m)"

definition IsVideoProcessed :: "Manager \<Rightarrow> string \<Rightarrow> (bool, Manager) outcome" where
  "IsVideoProcessed m videoID =
     (if \<not> ckpt_enabled m then Returned False m
      else if mutex m then Blocked m
      else Returned (lookup_bool (ProcessedVideos (data m)) videoID) m)"

definition SetUserCursor :: "Manager \<Rightarrow> string \<Rightarrow> string \<Rightarrow> (unit, Manager) outcome" where
  "SetUserCursor m userID cursor =
     (if \<not> ckpt_enabled m then Returned () m
      else if mutex m then Blocked m
      else
        (case UserCursors (data m) of
           None \<Rightarrow> Panicked NilMapAssignment m
         | Some entries \<Rightarrow>
             Returned ()
               (m\<lparr> data := (data m)\<lparr> UserCursors :=
                     Some (AList.update userID cursor entries) \<rparr> \<rparr>)))"

definition GetUserCursor :: "Manager \<Rightarrow> string \<Rightarrow> (string, Manager) outcome" where
  "GetUserCursor m userID =
     (if \<not> ckpt_enabled m then Returned '''' m
      else if mutex m then Blocked m
      else Returned (lookup_string (UserCursors (data m)) userID) m)"

definition SetCommentCursor :: "Manager \<Rightarrow> string \<Rightarrow> string \<Rightarrow> (unit, Manager) outcome" where
  "SetCommentCursor m videoID cursor =
     (if \<not> ckpt_enabled m then Returned () m
      else if mutex m then Blocked m
      else
        (case CommentCursors (data m) of
           None \<Rightarrow> Panicked NilMapAssignment m
         | Some entries \<Rightarrow>
             Returned ()
               (m\<lparr> data := (data m)\<lparr> CommentCursors :=
                     Some (AList.update videoID cursor entries) \<rparr> \<rparr>)))"

definition GetCommentCursor :: "Manager \<Rightarrow> string \<Rightarrow> (string, Manager) outcome" where
  "GetCommentCursor m videoID =
     (if \<not> ckpt_enabled m then Returned '''' m
      else if mutex m then Blocked m
      else Returned (lookup_string (CommentCursors (data m)) videoID) m)"

subsection \<open>The codec of encoding/json\<close>

text \<open>
  A Go string is a sequence of bytes. \<open>encoding/json\<close> writes and reads strings as valid
  UTF-8: where the bytes at a position do not start a well-formed UTF-8 sequence, it
  puts the replacement character U+FFFD (the bytes EF BF BD) for one byte and goes on
  with the next byte. \<open>rune_len\<close> is the length of the well-formed sequence at the head
  of a string, 0 when there is none (the table of the Unicode standard, which
  \<open>utf8.DecodeRuneInString\<close> follows: no overlong forms, no surrogates, nothing above
  U+10FFFF).
\<close>

definition cont :: "char \<Rightarrow> bool" where
  "cont c = (128 \<le> (of_char c :: nat) \<and> (of_char c :: nat) < 192)"

fun rune_len :: "string \<Rightarrow> nat" where
  "rune_len [] = 0"
| "rune_len (b # bs) =
     (let x = (of_char b :: nat) in
      if x < 128 then 1
      else if 194 \<le> x \<and> x < 224 then
        (case bs of
           c1 # rest \<Rightarrow> if cont c1 then 2 else 0
         | _ \<Rightarrow> 0)
      else if 224 \<le> x \<and> x < 240 then
        (case bs of
           c1 # c2 # rest \<Rightarrow>
             if cont c1 \<and> cont c2 \<and> (if x = 224 then 160 \<le> (of_char c1 :: nat) else True) \<and>
                (if x = 237 then (of_char c1 :: nat) < 160 else True)
             then 3 else 0
         | _ \<Rightarrow> 0)
      else if 240 \<le> x \<and> x < 245 then
        (case bs of
           c1 # c2 # c3 # rest \<Rightarrow>
             if cont c1 \<and> cont c2 \<and> cont c3 \<and>
                (if x = 240 then 144 \<le> (of_char c1 :: nat) else True) \<and>
                (if x = 244 then (of_char c1 :: nat) < 144 else True)
             then 4 else 0
         | _ \<Rightarrow> 0)
      else 0)"

declare rune_len.simps [simp del]

definition replacement :: string where
  "replacement = [CHR 0xEF, CHR 0xBF, CHR 0xBD]"

function coerce :: "string \<Rightarrow> string" where
  "coerce [] = []"
| "coerce (b # bs) =
     (case rune_len (b # bs) of
        0 \<Rightarrow> replacement @ coerce bs
      | Suc n \<Rightarrow> b # take n bs @ coerce (drop n bs))"
  by pat_completeness auto
termination
  by (relation "measure length") auto

function valid_utf8 :: "string \<Rightarrow> bool" where
  "valid_utf8 [] = True"
| "valid_utf8 (b # bs) =
     (case rune_len (b # bs) of
        0 \<Rightarrow> False
      | Suc n \<Rightarrow> valid_utf8 (drop n bs))"
  by pat_completeness auto
termination
  by (relation "measure length") auto

text \<open>
  What \<open>json.MarshalIndent\<close> writes for a \<open>Data\<close>, and what a checkpoint file can hold: a
  JSON object in which each field of \<open>Data\<close> is present or not (\<open>null\<close> counts as not
  present), a map being the sequence of its members; or content that \<open>json.Unmarshal\<close>
  refuses.
\<close>

record document =
  doc_platform :: "string option"
  doc_start_time :: "int option"
  doc_last_update_time :: "int option"
  doc_processed_users :: "(string \<times> bool) list option"
  doc_processed_videos :: "(string \<times> bool) list option"
  doc_user_cursors :: "(string \<times> string) list option"
  doc_comment_cursors :: "(string \<times> string) list option"
  doc_stats :: "Stats option"

datatype content = Malformed | Snapshot document

text \<open>
  A time is the count of nanoseconds since the zero value of \<open>time.Time\<close>, the start of
  the year 1 in UTC. \<open>Time.MarshalJSON\<close> writes a time exactly, and refuses one whose
  year is not in the range from 0 to 9999: the year 0 has 366 days, and the years from 1
  to 9999 have 3652059.
\<close>

definition json_time :: "int \<Rightarrow> bool" where
  "json_time t = (- (366 * 86400) * Second \<le> t \<and> t < 3652059 * 86400 * Second)"

text \<open>
  Marshalling writes every field, and fails when a time is refused. A \<open>nil\<close> map is
  written as \<open>null\<close>; the members of an allocated map are written in the order of their
  keys, with the keys, and the values that are strings, made valid UTF-8. Integers are
  written exactly.
\<close>

definition marshal_map :: "('v \<Rightarrow> 'v) \<Rightarrow> (string \<times> 'v) list \<Rightarrow> (string \<times> 'v) list" where
  "marshal_map enc entries = map (\<lambda>(k, v). (coerce k, enc v)) (sort_key fst entries)"

definition marshal :: "Data \<Rightarrow> content option" where
  "marshal dt =
     (if json_time (StartTime dt) \<and> json_time (LastUpdateTime dt) then
        Some (Snapshot
          \<lparr> doc_platform = Some (coerce (Platform dt)),
            doc_start_time = Some (StartTime dt),
            doc_last_update_time = Some (LastUpdateTime dt),
            doc_processed_users = map_option (marshal_map id) (ProcessedUsers dt),
            doc_processed_videos = map_option (marshal_map id) (ProcessedVideos dt),
            doc_user_cursors = map_option (marshal_map coerce) (UserCursors dt),
            doc_comment_cursors = map_option (marshal_map coerce) (CommentCursors dt),
            doc_stats = Some (Stats dt) \<rparr>)
      else None)"

text \<open>
  Unmarshalling into a zero-valued \<open>Data\<close>: a field that is not present keeps its zero
  value, so such a map stays \<open>nil\<close>; for an object a map is allocated and its members
  are assigned in their order, a later member of the same key replacing an earlier
  one.
\<close>

definition unmarshal_map :: "('v \<Rightarrow> 'v) \<Rightarrow> (string \<times> 'v) list \<Rightarrow> (string \<times> 'v) list" where
  "unmarshal_map dec members =
     foldl (\<lambda>entries (k, v). AList.update (coerce k) (dec v) entries) [] members"

fun unmarshal :: "content \<Rightarrow> Data option" where
  "unmarshal Malformed = None"
| "unmarshal (Snapshot doc) =
     Some \<lparr> Platform = (case doc_platform doc of None \<Rightarrow> '''' | Some s \<Rightarrow> coerce s),
            StartTime = (case doc_start_time doc of None \<Rightarrow> 0 | Some t \<Rightarrow> t),
            LastUpdateTime = (case doc_last_update_time doc of None \<Rightarrow> 0 | Some t \<Rightarrow> t),
            ProcessedUsers = map_option (unmarshal_map id) (doc_processed_users doc),
            ProcessedVideos = map_option (unmarshal_map id) (doc_processed_videos doc),
            UserCursors = map_option (unmarshal_map coerce) (doc_user_cursors doc),
            CommentCursors = map_option (unmarshal_map coerce) (doc_comment_cursors doc),
            Stats = (case doc_stats doc of
                       None \<Rightarrow> \<lparr> TotalUsers = 0, TotalVideos = 0, TotalComments = 0,
                                  TotalProducts = 0 \<rparr>
                     | Some st \<Rightarrow> st) \<rparr>"

definition encoding_json :: "content codec" where
  "encoding_json = \<lparr> MarshalIndent = marshal, Unmarshal = unmarshal \<rparr>"

text \<open>
  What a map holds, whatever the order of its entries; and the states of which the
  theorems below speak: the entries of each allocated map have distinct keys (it is a
  map), and the IDs and cursors are valid UTF-8.
\<close>

definition entries_of :: "'v gomap \<Rightarrow> (string \<rightharpoonup> 'v) option" where
  "entries_of mp = map_option map_of mp"

definition is_map :: "'v gomap \<Rightarrow> bool" where
  "is_map mp = (case mp of None \<Rightarrow> True | Some entries \<Rightarrow> distinct (map fst entries))"

definition keys_valid :: "'v gomap \<Rightarrow> bool" where
  "keys_valid mp =
     (case mp of None \<Rightarrow> True | Some entries \<Rightarrow> list_all (\<lambda>e. valid_utf8 (fst e)) entries)"

definition values_valid :: "string gomap \<Rightarrow> bool" where
  "values_valid mp =
     (case mp of None \<Rightarrow> True | Some entries \<Rightarrow> list_all (\<lambda>e. valid_utf8 (snd e)) entries)"

definition well_formed :: "Data \<Rightarrow> bool" where
  "well_formed dt =
     (is_map (ProcessedUsers dt) \<and> is_map (ProcessedVideos dt) \<and>
      is_map (UserCursors dt) \<and> is_map (CommentCursors dt))"

definition valid_strings :: "Data \<Rightarrow> bool" where
  "valid_strings dt =
     (keys_valid (ProcessedUsers dt) \<and> keys_valid (ProcessedVideos dt) \<and>
      keys_valid (UserCursors dt) \<and> values_valid (UserCursors dt) \<and>
      keys_valid (CommentCursors dt) \<and> values_valid (CommentCursors dt))"

text \<open>For the concrete runs below: a disk without files on which every write and read
  succeeds, a manager created at time 0 with a save interval of five seconds, and a disk
  whose checkpoint file is the empty object \<open>{}\<close>.\<close>

definition disk_empty :: "content disk" where
  "disk_empty = \<lparr> files = Map.empty, write_fails = (\<lambda>path. False),
                  read_fails = (\<lambda>path. False) \<rparr>"

definition config5 :: checkpoint_Config where
  "config5 = \<lparr> ckpt_Enabled = True, Interval = 5, File = ''checkpoint.json'' \<rparr>"

definition manager5 :: Manager where
  "manager5 = NewManager config5 0 0 0"

definition document_empty :: document where
  "document_empty =
     \<lparr> doc_platform = None, doc_start_time = None, doc_last_update_time = None,
       doc_processed_users = None, doc_processed_videos = None, doc_user_cursors = None,
       doc_comment_cursors = None, doc_stats = None \<rparr>"

definition disk_partial :: "content disk" where
  "disk_partial = disk_empty\<lparr> files := [''checkpoint.json'' \<mapsto> Snapshot document_empty] \<rparr>"

text \<open>The manager after \<open>Load\<close> of that file: every field of its data has the zero value,
  and its four maps are \<open>nil\<close>.\<close>

definition manager_partial :: Manager where
  "manager_partial =
     manager5\<lparr> data :=
       \<lparr> Platform = '''', StartTime = 0, LastUpdateTime = 0, ProcessedUsers = None,
         ProcessedVideos = None, UserCursors = None, CommentCursors = None,
         Stats = \<lparr> TotalUsers = 0, TotalVideos = 0, TotalComments = 0, TotalProducts = 0 \<rparr> \<rparr> \<rparr>"

text \<open>A manager that has marked two user IDs that are not valid UTF-8, the single bytes
  FF and FE, and the manager that \<open>Load\<close> makes of its saved checkpoint.\<close>

definition manager_ff :: Manager where
  "manager_ff =
     manager5\<lparr> data := (data manager5)\<lparr>
       ProcessedUsers := Some [([CHR 0xFF], True), ([CHR 0xFE], True)],
       Stats := (Stats (data manager5))\<lparr> TotalUsers := 2 \<rparr> \<rparr> \<rparr>"

definition manager_ff_loaded :: Manager where
  "manager_ff_loaded =
     (NewManager config5 20 21 22)\<lparr> data := (data manager_ff)\<lparr>
       LastUpdateTime := 7,
       ProcessedUsers := Some [(replacement, True)] \<rparr> \<rparr>"

text \<open>A manager that has marked the user \<open>u1\<close> and holds the cursor \<open>c5\<close> for it.\<close>

definition manager_u1 :: Manager where
  "manager_u1 =
     manager5\<lparr> data := (data manager5)\<lparr>
       ProcessedUsers := Some [(''u1'', True)],
       UserCursors := Some [(''u1'', ''c5'')],
       Stats := (Stats (data manager5))\<lparr> TotalUsers := 1 \<rparr> \<rparr> \<rparr>"

section \<open>Crawler (package main): the pagination loops\<close>

text \<open>Of the configuration, the fields read by the functions modelled here; of the records
  handed from the scraper to the sink, the fields the crawler reads.\<close>

record Config =
  Concurrency :: int
  Timeout :: int
  Retries :: int

record ProductInfo =
  ProductID :: string

record VideoData =
  VideoID :: string
  ProductInfo :: "ProductInfo option"

record CommentData =
  CommentID :: string

record UserData =
  UserID :: string

text \<open>
  The scraper is the remote platform seen through the interface \<open>Scraper\<close>. Its answer to
  a call may change from one call to the next, so each method takes, before its
  arguments, the number of calls of that method made so far. \<open>None\<close> is an error; for
  the two paged methods \<open>Some (items, nextCursor)\<close> is a page.
\<close>

record Scraper =
  GetUserInfo :: "nat \<Rightarrow> string \<Rightarrow> UserData option"
  GetUserVideos :: "nat \<Rightarrow> string \<Rightarrow> string \<Rightarrow> (VideoData list \<times> string) option"
  GetVideoComments :: "nat \<Rightarrow> string \<Rightarrow> string \<Rightarrow> (CommentData list \<times> string) option"
  GetProductInfo :: "nat \<Rightarrow> string \<Rightarrow> ProductInfo option"

text \<open>
  The effects of a crawl: the calls made to each method of the scraper, with their
  arguments and in their order, and the records handed to the \<open>save\<close> functions. The
  pauses (\<open>time.Sleep\<close>) and the log lines change nothing of this.
\<close>

datatype saved = UserFile string | VideoFile string | CommentFile string | ProductFile string

record world =
  user_calls :: "string list"
  video_calls :: "(string \<times> string) list"
  comment_calls :: "(string \<times> string) list"
  product_calls :: "string list"
  saves :: "saved list"

definition saveUserData :: "world \<Rightarrow> UserData \<Rightarrow> world" where
  "saveUserData w userData = w\<lparr> saves := saves w @ [UserFile (UserID userData)] \<rparr>"

definition saveVideoData :: "world \<Rightarrow> VideoData \<Rightarrow> world" where
  "saveVideoData w videoData = w\<lparr> saves := saves w @ [VideoFile (VideoID videoData)] \<rparr>"

definition saveCommentData :: "world \<Rightarrow> CommentData \<Rightarrow> world" where
  "saveCommentData w commentData =
     w\<lparr> saves := saves w @ [CommentFile (CommentID commentData)] \<rparr>"

definition saveProductInfo :: "world \<Rightarrow> ProductInfo \<Rightarrow> world" where
  "saveProductInfo w productInfo =
     w\<lparr> saves := saves w @ [ProductFile (ProductID productInfo)] \<rparr>"

definition crawlProductInfo :: "Scraper \<Rightarrow> world \<Rightarrow> string \<Rightarrow> world" where
  "crawlProductInfo sc w productID =
     (let w1 = w\<lparr> product_calls := product_calls w @ [productID] \<rparr> in
      case GetProductInfo sc (length (product_calls w)) productID of
        None \<Rightarrow> w1
      | Some productInfo \<Rightarrow> saveProductInfo w1 productInfo)"

text \<open>One pass through the body of a \<open>for { ... }\<close> loop ends in \<open>break\<close>, or goes on to
  the next pass with the loop variables \<open>cursor\<close> and \<open>retryCount\<close>.\<close>

datatype flow = Break world | Continue world string int

text \<open>The body of the loop of \<open>crawlVideoComments\<close>.\<close>

definition crawlVideoComments_pass ::
  "Scraper \<Rightarrow> Config \<Rightarrow> string \<Rightarrow> world \<Rightarrow> string \<Rightarrow> int \<Rightarrow> flow" where
  "crawlVideoComments_pass sc config videoID w cursor retryCount =
     (let w1 = w\<lparr> comment_calls := comment_calls w @ [(videoID, cursor)] \<rparr> in
      case GetVideoComments sc (length (comment_calls w)) videoID cursor of
        None \<Rightarrow>
          (let retryCount' = wrap64 (retryCount + 1) in
           if retryCount' > Retries config then Break w1
           else Continue w1 cursor retryCount')
      | Some (comments, nextCursor) \<Rightarrow>
          (let w2 = foldl saveCommentData w1 comments in
           if nextCursor = '''' \<or> nextCursor = cursor then Break w2
           else Continue w2 nextCursor 0))"

text \<open>The loop may run forever: the result is \<open>None\<close> then.\<close>

partial_function (option) crawlVideoComments_loop ::
  "Scraper \<Rightarrow> Config \<Rightarrow> string \<Rightarrow> world \<Rightarrow> string \<Rightarrow> int \<Rightarrow> world option" where
  "crawlVideoComments_loop sc config videoID w cursor retryCount =
     (case crawlVideoComments_pass sc config videoID w cursor retryCount of
        Break w' \<Rightarrow> Some w'
      | Continue w' cursor' retryCount' \<Rightarrow>
          crawlVideoComments_loop sc config videoID w' cursor' retryCount')"

definition crawlVideoComments :: "Scraper \<Rightarrow> Config \<Rightarrow> string \<Rightarrow> world \<Rightarrow> world option" where
  "crawlVideoComments sc config videoID w = crawlVideoComments_loop sc config videoID w '''' 0"

text \<open>The \<open>for _, video := range videos\<close> of \<open>crawlUserVideos\<close>.\<close>

fun crawlUserVideos_range :: "Scraper \<Rightarrow> Config \<Rightarrow> world \<Rightarrow> VideoData list \<Rightarrow> world option" where
  "crawlUserVideos_range sc config w [] = Some w"
| "crawlUserVideos_range sc config w (video # videos) =
     (case crawlVideoComments sc config (VideoID video) (saveVideoData w video) of
        None \<Rightarrow> None
      | Some w1 \<Rightarrow>
          (let w2 = (case ProductInfo video of
                       None \<Rightarrow> w1
                     | Some productInfo \<Rightarrow>
                         if ProductID productInfo \<noteq> ''''
                         then crawlProductInfo sc w1 (ProductID productInfo)
                         else w1)
           in crawlUserVideos_range sc config w2 videos))"

text \<open>The body of the loop of \<open>crawlUserVideos\<close>; \<open>None\<close> when the crawl of the comments
  of one of the page's videos never returns.\<close>

definition crawlUserVideos_pass ::
  "Scraper \<Rightarrow> Config \<Rightarrow> string \<Rightarrow> world \<Rightarrow> string \<Rightarrow> int \<Rightarrow> flow option" where
  "crawlUserVideos_pass sc config userID w cursor retryCount =
     (let w1 = w\<lparr> video_calls := video_calls w @ [(userID, cursor)] \<rparr> in
      case GetUserVideos sc (length (video_calls w)) userID cursor of
        None \<Rightarrow>
          (let retryCount' = wrap64 (retryCount + 1) in
           if retryCount' > Retries config then Some (Break w1)
           else Some (Continue w1 cursor retryCount'))
      | Some (videos, nextCursor) \<Rightarrow>
          (case crawlUserVideos_range sc config w1 videos of
             None \<Rightarrow> None
           | Some w2 \<Rightarrow>
               if nextCursor = '''' \<or> nextCursor = cursor then Some (Break w2)
               else Some (Continue w2 nextCursor 0)))"

partial_function (option) crawlUserVideos_loop ::
  "Scraper \<Rightarrow> Config \<Rightarrow> string \<Rightarrow> world \<Rightarrow> string \<Rightarrow> int \<Rightarrow> world option" where
  "crawlUserVideos_loop sc config userID w cursor retryCount =
     (case crawlUserVideos_pass sc config userID w cursor retryCount of
        None \<Rightarrow> None
      | Some (Break w') \<Rightarrow> Some w'
      | Some (Continue w' cursor' retryCount') \<Rightarrow>
          crawlUserVideos_loop sc config userID w' cursor' retryCount')"

definition crawlUserVideos :: "Scraper \<Rightarrow> Config \<Rightarrow> string \<Rightarrow> world \<Rightarrow> world option" where
  "crawlUserVideos sc config userID w = crawlUserVideos_loop sc config userID w '''' 0"

text \<open>
  The loop variables at the start of pass \<open>k\<close> (counted from 0) of a loop with the given
  body, started with \<open>w\<close>, \<open>cursor\<close> and \<open>retryCount\<close>; \<open>None\<close> when the loop does not
  come to that pass.
\<close>

fun pass_state ::
  "(world \<Rightarrow> string \<Rightarrow> int \<Rightarrow> flow option) \<Rightarrow> nat \<Rightarrow> world \<Rightarrow> string \<Rightarrow> int \<Rightarrow>
     (world \<times> string \<times> int) option" where
  "pass_state body 0 w cursor retryCount = Some (w, cursor, retryCount)"
| "pass_state body (Suc k) w cursor retryCount =
     (case body w cursor retryCount of
        Some (Continue w' cursor' retryCount') \<Rightarrow> pass_state body k w' cursor' retryCount'
      | _ \<Rightarrow> None)"

definition comments_pass_state ::
  "Scraper \<Rightarrow> Config \<Rightarrow> string \<Rightarrow> nat \<Rightarrow> world \<Rightarrow> (world \<times> string \<times> int) option" where
  "comments_pass_state sc config videoID k w =
     pass_state (\<lambda>w cursor retryCount.
        Some (crawlVideoComments_pass sc config videoID w cursor retryCount)) k w '''' 0"

definition videos_pass_state ::
  "Scraper \<Rightarrow> Config \<Rightarrow> string \<Rightarrow> nat \<Rightarrow> world \<Rightarrow> (world \<times> string \<times> int) option" where
  "videos_pass_state sc config userID k w =
     pass_state (crawlUserVideos_pass sc config userID) k w '''' 0"

text \<open>
  For the concrete runs below: a platform on which the first page of videos holds one
  video with a product and names the cursor \<open>c1\<close>, every later page is empty and names
  \<open>c1\<close> again; the first request for comments fails, the second gives one comment and
  names the cursor \<open>k1\<close>, every later one gives an empty page and names \<open>k1\<close> again.
\<close>

definition scraper_demo :: Scraper where
  "scraper_demo =
     \<lparr> GetUserInfo = (\<lambda>n userID. Some \<lparr> UserID = userID \<rparr>),
       GetUserVideos = (\<lambda>n userID cursor.
          Some (if n = 0 then [\<lparr> VideoID = ''v1'', ProductInfo = Some \<lparr> ProductID = ''p1'' \<rparr> \<rparr>]
                else [], ''c1'')),
       GetVideoComments = (\<lambda>n videoID cursor.
          if n = 0 then None
          else if n = 1 then Some ([\<lparr> CommentID = ''m1'' \<rparr>], ''k1'')
          else Some ([], ''k1'')),
       GetProductInfo = (\<lambda>n productID. Some \<lparr> ProductID = productID \<rparr>) \<rparr>"

definition config3 :: Config where
  "config3 = \<lparr> Concurrency = 2, Timeout = 0, Retries = 3 \<rparr>"

definition world_empty :: world where
  "world_empty = \<lparr> user_calls = [], video_calls = [], comment_calls = [], product_calls = [],
                   saves = [] \<rparr>"

definition world_demo :: world where
  "world_demo =
     \<lparr> user_calls = [],
       video_calls = [(''u1'', ''''), (''u1'', ''c1'')],
       comment_calls = [(''v1'', ''''), (''v1'', ''''), (''v1'', ''k1'')],
       product_calls = [''p1''],
       saves = [VideoFile ''v1'', CommentFile ''m1'', ProductFile ''p1''] \<rparr>"

definition world_comments :: world where
  "world_comments =
     \<lparr> user_calls = [], video_calls = [],
       comment_calls = [(''v1'', ''''), (''v1'', ''''), (''v1'', ''k1'')],
       product_calls = [],
       saves = [CommentFile ''m1''] \<rparr>"

subsection \<open>A crawl beside a checkpoint manager\<close>

text \<open>
  The \<open>Crawler\<close> has the fields \<open>config\<close>, \<open>wg\<close>, \<open>mutex\<close>, \<open>urlChannel\<close> and \<open>scraper\<close>:
  none of them is a checkpoint manager, package \<open>main\<close> does not import package
  \<open>checkpoint\<close>, and no statement of \<open>crawlUserVideos\<close> or \<open>crawlVideoComments\<close> calls it.
  The state of a process that has a manager beside the crawler is the pair of the
  crawl's effects and the manager; a crawl in that state is the crawl on its effects.
\<close>

record process =
  effects :: world
  store :: Manager

definition crawlUserVideos_in :: "Scraper \<Rightarrow> Config \<Rightarrow> string \<Rightarrow> process \<Rightarrow> process option" where
  "crawlUserVideos_in sc config userID p =
     (case crawlUserVideos sc config userID (effects p) of
        None \<Rightarrow> None
      | Some w' \<Rightarrow> Some (p\<lparr> effects := w' \<rparr>))"

definition crawlVideoComments_in :: "Scraper \<Rightarrow> Config \<Rightarrow> string \<Rightarrow> process \<Rightarrow> process option" where
  "crawlVideoComments_in sc config videoID p =
     (case crawlVideoComments sc config videoID (effects p) of
        None \<Rightarrow> None
      | Some w' \<Rightarrow> Some (p\<lparr> effects := w' \<rparr>))"

text \<open>A checkpoint manager that holds the cursor \<open>c5\<close> for the user \<open>u1\<close> and the cursor
  \<open>k5\<close> for the video \<open>v1\<close>.\<close>

definition manager_c5 :: Manager where
  "manager_c5 =
     state_of (SetCommentCursor (state_of (SetUserCursor manager5 ''u1'' ''c5'')) ''v1'' ''k5'')"

section \<open>Crawler (package main): Start and the workers\<close>

text \<open>The body of the loop of \<open>worker\<close> for one user ID; \<open>None\<close> when the crawl of the
  user's videos never returns.\<close>

definition worker_body :: "Scraper \<Rightarrow> Config \<Rightarrow> world \<Rightarrow> string \<Rightarrow> world option" where
  "worker_body sc config w userID =
     (let w1 = w\<lparr> user_calls := user_calls w @ [userID] \<rparr> in
      case GetUserInfo sc (length (user_calls w)) userID of
        None \<Rightarrow> Some w1
      | Some userData \<Rightarrow> crawlUserVideos sc config userID (saveUserData w1 userData))"

text \<open>
  \<open>Start\<close> and the workers it launches run as goroutines; a run is a sequence of their
  steps, in an order chosen by the scheduler. The state of a run:
  \<^item> \<open>pending\<close>: the user IDs that the second loop of \<open>Start\<close> has yet to send;
  \<^item> \<open>urlChannel\<close>: the content of the buffered channel, which has room for
    \<open>Concurrency\<close> IDs (\<open>NewCrawler\<close>), and \<open>closed\<close>: whether \<open>close\<close> has been called;
  \<^item> \<open>workers\<close>: one entry for each worker launched so far: \<open>Waiting\<close> at the head of
    \<open>for userID := range c.urlChannel\<close>, \<open>Working userID\<close> in the body of the loop, \<open>Gone\<close>
    after the loop has ended and \<open>wg.Done()\<close> has run;
  \<^item> \<open>handled\<close>: the passes through the loop body that have ended, as (worker, user ID);
  \<^item> \<open>net\<close>: the calls made and records saved so far;
  \<^item> \<open>finished\<close>: whether \<open>Start\<close> has returned.
  The body of the worker's loop is taken as one step.
\<close>

datatype worker = Waiting | Working string | Gone

record crawl =
  pending :: "string list"
  urlChannel :: "string list"
  closed :: bool
  workers :: "worker list"
  handled :: "(nat \<times> string) list"
  net :: world
  finished :: bool

definition Start_called :: "world \<Rightarrow> string list \<Rightarrow> crawl" where
  "Start_called w userIDs =
     \<lparr> pending = userIDs, urlChannel = [], closed = False, workers = [], handled = [],
       net = w, finished = False \<rparr>"

text \<open>
  The steps. Of \<open>Start\<close>, in program order: \<open>Launch\<close> is one pass of the first loop
  (\<open>wg.Add(1); go c.worker()\<close>); \<open>Send\<close> is one pass of the second loop, possible when
  the channel has room; \<open>Close\<close> is \<open>close(c.urlChannel)\<close>; \<open>Return\<close> is the return of
  \<open>wg.Wait()\<close>, when every worker has called \<open>wg.Done()\<close>. Of worker \<open>i\<close>: \<open>Receive i\<close>
  takes the first ID of the channel; \<open>Finish i\<close> is the loop body for that ID;
  \<open>Leave i\<close> ends the loop, when the channel is closed and empty. \<open>None\<close>: the step cannot
  be taken in this state.
\<close>

datatype action = Launch | Send | Close | Return | Receive nat | Finish nat | Leave nat

fun step :: "Scraper \<Rightarrow> Config \<Rightarrow> crawl \<Rightarrow> action \<Rightarrow> crawl option" where
  "step sc config s Launch =
     (if int (length (workers s)) < Concurrency config
      then Some (s\<lparr> workers := workers s @ [Waiting] \<rparr>) else None)"
| "step sc config s Send =
     (if \<not> int (length (workers s)) < Concurrency config \<and> \<not> closed s \<and> pending s \<noteq> [] \<and>
         int (length (urlChannel s)) < Concurrency config
      then Some (s\<lparr> urlChannel := urlChannel s @ [hd (pending s)], pending := tl (pending s) \<rparr>)
      else None)"
| "step sc config s Close =
     (if \<not> int (length (workers s)) < Concurrency config \<and> \<not> closed s \<and> pending s = []
      then Some (s\<lparr> closed := True \<rparr>) else None)"
| "step sc config s Return =
     (if closed s \<and> \<not> finished s \<and> list_all (\<lambda>wk. wk = Gone) (workers s)
      then Some (s\<lparr> finished := True \<rparr>) else None)"
| "step sc config s (Receive i) =
     (if i < length (workers s) \<and> workers s ! i = Waiting \<and> urlChannel s \<noteq> []
      then Some (s\<lparr> workers := (workers s)[i := Working (hd (urlChannel s))],
                     urlChannel := tl (urlChannel s) \<rparr>)
      else None)"
| "step sc config s (Finish i) =
     (if i < length (workers s)
      then (case workers s ! i of
              Working userID \<Rightarrow>
                (case worker_body sc config (net s) userID of
                   None \<Rightarrow> None
                 | Some w' \<Rightarrow>
                     Some (s\<lparr> workers := (workers s)[i := Waiting],
                              handled := handled s @ [(i, userID)],
                              net := w' \<rparr>))
            | _ \<Rightarrow> None)
      else None)"
| "step sc config s (Leave i) =
     (if i < length (workers s) \<and> workers s ! i = Waiting \<and> urlChannel s = [] \<and> closed s
      then Some (s\<lparr> workers := (workers s)[i := Gone] \<rparr>) else None)"

fun run :: "Scraper \<Rightarrow> Config \<Rightarrow> crawl \<Rightarrow> action list \<Rightarrow> crawl option" where
  "run sc config s [] = Some s"
| "run sc config s (a # as) =
     (case step sc config s a of None \<Rightarrow> None | Some s' \<Rightarrow> run sc config s' as)"

text \<open>The user IDs that workers hold: received and not yet handled.\<close>

fun held :: "worker list \<Rightarrow> string list" where
  "held [] = []"
| "held (Waiting # ws) = held ws"
| "held (Working userID # ws) = userID # held ws"
| "held (Gone # ws) = held ws"

text \<open>
  What holds in every state of a run of \<open>Start\<close> on \<open>userIDs\<close> from the world \<open>w\<close>: every
  user ID is in exactly one place (not yet sent, in the channel, held by a worker, or
  handled); the channel is closed only after everything has been sent; a worker has
  left only when the channel was closed and empty; \<open>Start\<close> has returned only when all
  workers have left; \<open>GetUserInfo\<close> has been called once for each handled ID.
\<close>

definition crawl_inv :: "Config \<Rightarrow> string list \<Rightarrow> world \<Rightarrow> crawl \<Rightarrow> bool" where
  "crawl_inv config userIDs w s =
     (mset (pending s) + mset (urlChannel s) + mset (held (workers s)) +
        mset (map snd (handled s)) = mset userIDs \<and>
      (closed s \<longrightarrow> pending s = [] \<and> \<not> int (length (workers s)) < Concurrency config) \<and>
      (Gone \<in> set (workers s) \<longrightarrow> closed s \<and> urlChannel s = []) \<and>
      int (length (urlChannel s)) \<le> max 0 (Concurrency config) \<and>
      int (length (workers s)) \<le> max 0 (Concurrency config) \<and>
      (\<forall>e \<in> set (handled s). fst e < length (workers s)) \<and>
      (finished s \<longrightarrow> closed s \<and> list_all (\<lambda>wk. wk = Gone) (workers s)) \<and>
      mset (user_calls (net s)) = mset (user_calls w) + mset (map snd (handled s)))"

text \<open>The number of steps a run can still take.\<close>

definition steps_left :: "Config \<Rightarrow> crawl \<Rightarrow> nat" where
  "steps_left config s =
     3 * length (pending s) + 2 * length (urlChannel s) + length (held (workers s)) +
     2 * (nat (Concurrency config) - length (workers s)) +
     length (filter (\<lambda>wk. wk \<noteq> Gone) (workers s)) +
     (if closed s then 0 else 1) + (if finished s then 0 else 1)"

text \<open>For the concrete run below: a platform on which every call fails, and a schedule of
  two workers for the user IDs \<open>u1\<close> and \<open>u2\<close>.\<close>

definition scraper_down :: Scraper where
  "scraper_down =
     \<lparr> GetUserInfo = (\<lambda>n userID. None),
       GetUserVideos = (\<lambda>n userID cursor. None),
       GetVideoComments = (\<lambda>n videoID cursor. None),
       GetProductInfo = (\<lambda>n productID. None) \<rparr>"

definition schedule_demo :: "action list" where
  "schedule_demo =
     [Launch, Launch, Send, Receive 0, Send, Receive (Suc 0), Finish (Suc 0), Close, Finish 0,
      Leave 0, Leave (Suc 0), Return]"

definition crawl_done :: crawl where
  "crawl_done =
     \<lparr> pending = [], urlChannel = [], closed = True, workers = [Gone, Gone],
       handled = [(Suc 0, ''u2''), (0, ''u1'')],
       net = world_empty\<lparr> user_calls := [''u2'', ''u1''] \<rparr>,
       finished = True \<rparr>"

chapter \<open>Theorems\<close>

section \<open>Rate limiter: theorems\<close>

lemma wrap64_id: "in_int64 x \<Longrightarrow> wrap64 x = x"
  unfolding wrap64_def in_int64_def by simp

lemma go_quot_nonneg: "0 \<le> a \<Longrightarrow> 0 < b \<Longrightarrow> go_quot a b = a div b"
  unfolding go_quot_def by (cases "a = 0") simp_all

text \<open>
  C10. \<open>NewLimiter\<close> replaces a zero or negative \<open>RequestsPerMinute\<close> by 60, which gives a
  refill interval of one second; a positive value is taken as the capacity; in both
  cases the bucket starts full.
\<close>

theorem NewLimiter_capacity:
  "(RequestsPerMinute config \<le> 0 \<longrightarrow>
      requestsPerMinute (NewLimiter config now) = 60 \<and>
      interval (NewLimiter config now) = Second \<and>
      interval (NewLimiter config now) = go_quot Minute 60 \<and>
      tokens (NewLimiter config now) = 60) \<and>
   (0 < RequestsPerMinute config \<longrightarrow>
      requestsPerMinute (NewLimiter config now) = RequestsPerMinute config) \<and>
   tokens (NewLimiter config now) = requestsPerMinute (NewLimiter config now)"
  by (simp add: NewLimiter_def Let_def go_quot_def Minute_def Second_def)

theorem NewLimiter_capacity_witness:
  "requestsPerMinute (NewLimiter \<lparr> Enabled = True, RequestsPerMinute = - 5 \<rparr> 0) = 60 \<and>
   interval (NewLimiter \<lparr> Enabled = True, RequestsPerMinute = - 5 \<rparr> 0) = 1000000000 \<and>
   tokens (NewLimiter \<lparr> Enabled = True, RequestsPerMinute = - 5 \<rparr> 0) = 60 \<and>
   requestsPerMinute (NewLimiter \<lparr> Enabled = True, RequestsPerMinute = 120 \<rparr> 0) = 120 \<and>
   tokens (NewLimiter \<lparr> Enabled = True, RequestsPerMinute = 120 \<rparr> 0) = 120"
  using NewLimiter_capacity [of "\<lparr> Enabled = True, RequestsPerMinute = - 5 \<rparr>" 0]
    NewLimiter_capacity [of "\<lparr> Enabled = True, RequestsPerMinute = 120 \<rparr>" 0]
  by (simp add: Second_def)

lemma Wait_panics_iff:
  "(\<exists>p. Wait l now1 now2 now3 = Inl p) \<longleftrightarrow> enabled l \<and> interval l = 0"
  by (simp add: Wait_def Let_def)

lemma NewLimiter_interval_zero_iff:
  "interval (NewLimiter config now) = 0 \<longleftrightarrow> Minute < RequestsPerMinute config"
proof -
  have "0 < r \<Longrightarrow> go_quot Minute r = 0 \<longleftrightarrow> Minute < r" for r
    by (auto simp: go_quot_nonneg Minute_def Second_def zdiv_eq_0_iff)
  then show ?thesis
    by (auto simp: NewLimiter_def Let_def Minute_def Second_def go_quot_def)
qed

lemma Wait_preserves_bound:
  assumes "tokens_bounded l" and "Wait l now1 now2 now3 = Inr (l', slept)"
  shows "tokens_bounded l' \<and> requestsPerMinute l' = requestsPerMinute l"
  using assms
  by (auto simp: Wait_def Let_def tokens_bounded_def min_go_def split: if_splits)

lemma Wait_refill:
  assumes en: "enabled l" and iv: "0 < interval l" and el: "lastRefill l \<le> now1"
    and b: "tokens_bounded l"
    and fit: "in_int64 (tokens l + (now1 - lastRefill l) div interval l)"
  shows "\<exists>l' slept. Wait l now1 now2 now3 = Inr (l', slept) \<and>
           tokens l' = max 1 (min (requestsPerMinute l)
                                 (tokens l + (now1 - lastRefill l) div interval l)) - 1"
proof -
  let ?add = "(now1 - lastRefill l) div interval l"
  have q: "go_quot (now1 - lastRefill l) (interval l) = ?add"
    using el iv by (simp add: go_quot_nonneg)
  have nonneg: "0 \<le> ?add"
    using el iv by (simp add: pos_imp_zdiv_nonneg_iff)
  have w: "wrap64 (tokens l + ?add) = tokens l + ?add"
    using fit by (rule wrap64_id)
  show ?thesis
    using en iv b nonneg
    by (auto simp: Wait_def Let_def q w min_go_def tokens_bounded_def)
qed

text \<open>
  C7. The bucket starts within \<open>[0, capacity]\<close> and every call of \<open>Wait\<close> that returns
  leaves it there, with the capacity unchanged; the only other outcome is the panic
  of the division by a zero interval, before anything is assigned. The refill adds
  \<open>elapsed div interval\<close>, which is never negative, capped at the capacity, and taking
  the token leaves at least zero.
\<close>

theorem Wait_tokens_bounded:
  "tokens_bounded (NewLimiter config now) \<and>
   (tokens_bounded l \<longrightarrow>
      (case Wait l now1 now2 now3 of
         Inr (l', slept) \<Rightarrow> tokens_bounded l' \<and> requestsPerMinute l' = requestsPerMinute l
       | Inl p \<Rightarrow> enabled l \<and> interval l = 0)) \<and>
   (enabled l \<and> 0 < interval l \<and> lastRefill l \<le> now1 \<and> tokens_bounded l \<and>
    in_int64 (tokens l + (now1 - lastRefill l) div interval l) \<longrightarrow>
      go_quot (now1 - lastRefill l) (interval l) = (now1 - lastRefill l) div interval l \<and>
      0 \<le> (now1 - lastRefill l) div interval l \<and>
      (\<exists>l' slept. Wait l now1 now2 now3 = Inr (l', slept) \<and>
         tokens l' = max 1 (min (requestsPerMinute l)
                               (tokens l + (now1 - lastRefill l) div interval l)) - 1))"
proof (intro conjI impI)
  show "tokens_bounded (NewLimiter config now)"
    by (simp add: tokens_bounded_def NewLimiter_def Let_def)
next
  assume b: "tokens_bounded l"
  show "case Wait l now1 now2 now3 of
          Inr (l', slept) \<Rightarrow> tokens_bounded l' \<and> requestsPerMinute l' = requestsPerMinute l
        | Inl p \<Rightarrow> enabled l \<and> interval l = 0"
  proof (cases "Wait l now1 now2 now3")
    case (Inl p)
    then show ?thesis using Wait_panics_iff [of l now1 now2 now3] by auto
  next
    case (Inr r)
    then show ?thesis using Wait_preserves_bound [OF b, of now1 now2 now3 "fst r" "snd r"]
      by (simp add: case_prod_beta)
  qed
next
  assume h: "enabled l \<and> 0 < interval l \<and> lastRefill l \<le> now1 \<and> tokens_bounded l \<and>
    in_int64 (tokens l + (now1 - lastRefill l) div interval l)"
  then show "go_quot (now1 - lastRefill l) (interval l) = (now1 - lastRefill l) div interval l"
    by (simp add: go_quot_nonneg)
  from h show "0 \<le> (now1 - lastRefill l) div interval l"
    by (simp add: pos_imp_zdiv_nonneg_iff)
  from h show "\<exists>l' slept. Wait l now1 now2 now3 = Inr (l', slept) \<and>
         tokens l' = max 1 (min (requestsPerMinute l)
                               (tokens l + (now1 - lastRefill l) div interval l)) - 1"
    using Wait_refill [of l now1 now2 now3] by blast
qed

theorem Wait_tokens_bounded_witness:
  "tokens_bounded \<lparr> enabled = True, requestsPerMinute = 2, interval = 30000000000,
                    tokens = 0, lastRefill = 0 \<rparr> \<and>
   in_int64 (0 + (31000000000 - 0) div 30000000000) \<and>
   Wait \<lparr> enabled = True, requestsPerMinute = 2, interval = 30000000000,
          tokens = 0, lastRefill = 0 \<rparr> 31000000000 31000000000 31000000000 =
     Inr (\<lparr> enabled = True, requestsPerMinute = 2, interval = 30000000000,
            tokens = 0, lastRefill = 30000000000 \<rparr>, 0) \<and>
   tokens_bounded \<lparr> enabled = True, requestsPerMinute = 2, interval = 30000000000,
                    tokens = 0, lastRefill = 30000000000 \<rparr> \<and>
   max 1 (min 2 (0 + (31000000000 - 0) div 30000000000)) - 1 = (0 :: int)"
  using Wait_tokens_bounded [where l = "\<lparr> enabled = True, requestsPerMinute = 2,
      interval = 30000000000, tokens = 0, lastRefill = 0 \<rparr>"
      and ?now1.0 = 31000000000 and ?now2.0 = 31000000000 and ?now3.0 = 31000000000]
  by (simp add: tokens_bounded_def in_int64_def Wait_def Let_def go_quot_def min_go_def
      wrap64_def)

text \<open>
  \<open>Wait\<close> panics in the division \<open>elapsed / l.interval\<close> exactly when the limiter is
  enabled and its interval is zero, and \<open>NewLimiter\<close> makes the interval zero exactly
  when \<open>RequestsPerMinute\<close> is more than the nanoseconds of a minute.
\<close>

theorem Wait_divide_by_zero:
  "((\<exists>p. Wait l now1 now2 now3 = Inl p) \<longleftrightarrow> enabled l \<and> interval l = 0) \<and>
   (interval (NewLimiter config now) = 0 \<longleftrightarrow> Minute < RequestsPerMinute config) \<and>
   Wait (NewLimiter \<lparr> Enabled = True, RequestsPerMinute = 60000000001 \<rparr> 0) 1 1 1 =
     Inl DivideByZero"
proof (intro conjI)
  show "(\<exists>p. Wait l now1 now2 now3 = Inl p) \<longleftrightarrow> enabled l \<and> interval l = 0"
    by (rule Wait_panics_iff)
  show "interval (NewLimiter config now) = 0 \<longleftrightarrow> Minute < RequestsPerMinute config"
    by (rule NewLimiter_interval_zero_iff)
  show "Wait (NewLimiter \<lparr> Enabled = True, RequestsPerMinute = 60000000001 \<rparr> 0) 1 1 1 =
     Inl DivideByZero"
    by (simp add: Wait_def NewLimiter_def Let_def go_quot_def Minute_def Second_def)
qed

section \<open>Proxy pool: theorems\<close>

lemma GetProxy_None_iff:
  "fst (GetProxy p rnd now) = None \<longleftrightarrow> \<not> (\<exists>q \<in> set (proxies p). usable p q)"
proof -
  let ?valid = "filter (\<lambda>i. usable p (proxies p ! i)) [0..<length (proxies p)]"
  have "?valid = [] \<longleftrightarrow> \<not> (\<exists>q \<in> set (proxies p). usable p q)"
    by (simp add: filter_empty_conv) (metis in_set_conv_nth atLeastLessThan_iff le0)
  then show ?thesis
    by (simp add: GetProxy_def Let_def)
qed

lemma GetProxy_Some:
  assumes "fst (GetProxy p rnd now) = Some q"
  shows "\<exists>i < length (proxies p). usable p (proxies p ! i) \<and>
           q = (proxies p ! i)\<lparr> LastUsed := now \<rparr> \<and>
           proxies (snd (GetProxy p rnd now)) = (proxies p)[i := q]"
proof -
  let ?valid = "filter (\<lambda>i. usable p (proxies p ! i)) [0..<length (proxies p)]"
  from assms have ne: "?valid \<noteq> []"
    by (auto simp: GetProxy_def Let_def split: if_splits)
  let ?i = "?valid ! (rnd mod length ?valid)"
  from ne have "rnd mod length ?valid < length ?valid" by simp
  then have "?i \<in> set ?valid" by (rule nth_mem)
  then have i: "?i < length (proxies p)" "usable p (proxies p ! ?i)" by auto
  from assms ne have "q = (proxies p ! ?i)\<lparr> LastUsed := now \<rparr>"
    and "proxies (snd (GetProxy p rnd now)) = (proxies p)[?i := q]"
    by (auto simp: GetProxy_def Let_def)
  with i show ?thesis by blast
qed

text \<open>
  C8. \<open>GetProxy\<close> answers \<open>nil\<close> exactly when the pool holds no proxy with
  \<open>IsValid\<close> and \<open>FailCount < maxFailures\<close>; a proxy it returns is valid, has fewer
  failures than the threshold, and is an entry of the pool.
\<close>

theorem GetProxy_usable:
  "(fst (GetProxy p rnd now) = None \<longleftrightarrow>
      \<not> (\<exists>q \<in> set (proxies p). IsValid q \<and> FailCount q < maxFailures p)) \<and>
   (\<forall>q. fst (GetProxy p rnd now) = Some q \<longrightarrow>
      IsValid q \<and> FailCount q < maxFailures p \<and>
      q \<in> set (proxies (snd (GetProxy p rnd now))))"
proof (intro conjI allI impI)
  show "fst (GetProxy p rnd now) = None \<longleftrightarrow>
      \<not> (\<exists>q \<in> set (proxies p). IsValid q \<and> FailCount q < maxFailures p)"
    using GetProxy_None_iff [of p rnd now] by (simp add: usable_def)
next
  fix q assume "fst (GetProxy p rnd now) = Some q"
  from GetProxy_Some [OF this] obtain i where i: "i < length (proxies p)"
    "usable p (proxies p ! i)" "q = (proxies p ! i)\<lparr> LastUsed := now \<rparr>"
    "proxies (snd (GetProxy p rnd now)) = (proxies p)[i := q]"
    by blast
  from i(2,3) show "IsValid q" and "FailCount q < maxFailures p"
    by (simp_all add: usable_def)
  from i(1,4) show "q \<in> set (proxies (snd (GetProxy p rnd now)))"
    by (simp add: set_update_memI)
qed

theorem GetProxy_usable_witness:
  "fst (GetProxy pool_ab 7 100) = Some (proxy_b\<lparr> LastUsed := 100 \<rparr>) \<and>
   IsValid (proxy_b\<lparr> LastUsed := 100 \<rparr>) \<and>
   FailCount (proxy_b\<lparr> LastUsed := 100 \<rparr>) < maxFailures pool_ab \<and>
   proxy_b\<lparr> LastUsed := 100 \<rparr> \<in> set (proxies (snd (GetProxy pool_ab 7 100))) \<and>
   fst (GetProxy (pool_ab\<lparr> proxies := [proxy_a] \<rparr>) 7 100) = None"
proof -
  have upt2: "[0..<2] = [0, Suc 0]" by (simp add: upt_rec)
  have sel: "fst (GetProxy pool_ab 7 100) = Some (proxy_b\<lparr> LastUsed := 100 \<rparr>)"
    by (simp add: GetProxy_def Let_def pool_ab_def proxy_a_def proxy_b_def usable_def upt2)
  have none: "\<not> (\<exists>q \<in> set (proxies (pool_ab\<lparr> proxies := [proxy_a] \<rparr>)).
           IsValid q \<and> FailCount q < maxFailures (pool_ab\<lparr> proxies := [proxy_a] \<rparr>))"
    by (simp add: pool_ab_def proxy_a_def)
  from sel none GetProxy_usable [of pool_ab 7 100]
    GetProxy_usable [of "pool_ab\<lparr> proxies := [proxy_a] \<rparr>" 7 100]
  show ?thesis by simp
qed

subsection \<open>Upsert and removal keep identities distinct\<close>












section \<open>Checkpoint store: theorems\<close>

subsection \<open>The auto-save inside the marking functions\<close>

lemma CheckSave_held:
  assumes "mutex m"
  shows "CheckSave json m d now now1 now2 =
           (if ckpt_enabled m \<and> 0 < ckpt_interval m \<and> save_due m now
            then Blocked (m, d) else Returned None (m, d))"
  using assms by (auto simp: CheckSave_def Save_def)

lemma MarkUserProcessed_eq:
  assumes "ckpt_enabled m" and "\<not> mutex m" and "ProcessedUsers (data m) = Some entries"
  shows "MarkUserProcessed json m d userID now now1 now2 =
           (let dt = (data m)\<lparr> ProcessedUsers := Some (AList.update userID True entries),
                               Stats := (Stats (data m))\<lparr> TotalUsers :=
                                  wrap64 (TotalUsers (Stats (data m)) + 1) \<rparr> \<rparr>
            in if 0 < ckpt_interval m \<and> save_due m now
               then Blocked (m\<lparr> data := dt, mutex := True \<rparr>, d)
               else Returned () (m\<lparr> data := dt \<rparr>, d))"
  using assms
  by (simp add: MarkUserProcessed_def Let_def CheckSave_held save_due_def Unlock_def)

lemma MarkVideoProcessed_eq:
  assumes "ckpt_enabled m" and "\<not> mutex m" and "ProcessedVideos (data m) = Some entries"
  shows "MarkVideoProcessed json m d videoID now now1 now2 =
           (let dt = (data m)\<lparr> ProcessedVideos := Some (AList.update videoID True entries),
                               Stats := (Stats (data m))\<lparr> TotalVideos :=
                                  wrap64 (TotalVideos (Stats (data m)) + 1) \<rparr> \<rparr>
            in if 0 < ckpt_interval m \<and> save_due m now
               then Blocked (m\<lparr> data := dt, mutex := True \<rparr>, d)
               else Returned () (m\<lparr> data := dt \<rparr>, d))"
  using assms
  by (simp add: MarkVideoProcessed_def Let_def CheckSave_held save_due_def Unlock_def)

lemma MarkUserProcessed_nil:
  assumes "ckpt_enabled m" and "\<not> mutex m" and "ProcessedUsers (data m) = None"
  shows "MarkUserProcessed json m d userID now now1 now2 = Panicked NilMapAssignment (m, d)"
  using assms by (cases m) (simp add: MarkUserProcessed_def Let_def Unlock_def)

lemma MarkVideoProcessed_nil:
  assumes "ckpt_enabled m" and "\<not> mutex m" and "ProcessedVideos (data m) = None"
  shows "MarkVideoProcessed json m d videoID now now1 now2 = Panicked NilMapAssignment (m, d)"
  using assms by (cases m) (simp add: MarkVideoProcessed_def Let_def Unlock_def)

lemma MarkUserProcessed_returned_iff:
  assumes "ckpt_enabled m" and "\<not> mutex m"
  shows "returned (MarkUserProcessed json m d userID now now1 now2) \<longleftrightarrow>
           ProcessedUsers (data m) \<noteq> None \<and> \<not> (0 < ckpt_interval m \<and> save_due m now)"
proof (cases "ProcessedUsers (data m)")
  case None
  then show ?thesis by (simp add: MarkUserProcessed_nil [OF assms])
next
  case (Some entries)
  then show ?thesis by (simp add: MarkUserProcessed_eq [OF assms] Let_def)
qed

lemma MarkVideoProcessed_returned_iff:
  assumes "ckpt_enabled m" and "\<not> mutex m"
  shows "returned (MarkVideoProcessed json m d videoID now now1 now2) \<longleftrightarrow>
           ProcessedVideos (data m) \<noteq> None \<and> \<not> (0 < ckpt_interval m \<and> save_due m now)"
proof (cases "ProcessedVideos (data m)")
  case None
  then show ?thesis by (simp add: MarkVideoProcessed_nil [OF assms])
next
  case (Some entries)
  then show ?thesis by (simp add: MarkVideoProcessed_eq [OF assms] Let_def)
qed

text \<open>No call of a marking function writes the checkpoint file.\<close>

lemma MarkUserProcessed_disk:
  "snd (state_of (MarkUserProcessed json m d userID now now1 now2)) = d"
proof (cases "ckpt_enabled m \<and> \<not> mutex m")
  case True
  then show ?thesis
    by (cases "ProcessedUsers (data m)")
      (simp_all add: MarkUserProcessed_eq MarkUserProcessed_nil Let_def)
next
  case False
  then show ?thesis by (auto simp: MarkUserProcessed_def)
qed

lemma MarkVideoProcessed_disk:
  "snd (state_of (MarkVideoProcessed json m d videoID now now1 now2)) = d"
proof (cases "ckpt_enabled m \<and> \<not> mutex m")
  case True
  then show ?thesis
    by (cases "ProcessedVideos (data m)")
      (simp_all add: MarkVideoProcessed_eq MarkVideoProcessed_nil Let_def)
next
  case False
  then show ?thesis by (auto simp: MarkVideoProcessed_def)
qed

lemma manager5_free: "ckpt_enabled manager5 \<and> \<not> mutex manager5"
  by (simp add: manager5_def NewManager_def config5_def)

subsection \<open>Marking after the load of a partial snapshot\<close>

text \<open>
  C4, at a concrete input. The checkpoint file holds the object \<open>{}\<close>. \<open>Load\<close> returns
  without error and leaves a manager whose maps are \<open>nil\<close>. \<open>MarkUserProcessed\<close> then
  panics in the assignment \<open>m.data.ProcessedUsers[userID] = true\<close>: the ID is not in the
  processed-set and \<open>TotalUsers\<close> is still 0; \<open>MarkVideoProcessed\<close> does the same.
\<close>

theorem MarkProcessed_nil_map_panics:
  "Load encoding_json manager5 disk_partial = Returned None (manager_partial, disk_partial) \<and>
   ckpt_enabled manager_partial \<and> \<not> mutex manager_partial \<and>
   MarkUserProcessed encoding_json manager_partial disk_partial ''u1'' Second 0 0 =
     Panicked NilMapAssignment (manager_partial, disk_partial) \<and>
   lookup_bool (ProcessedUsers (data manager_partial)) ''u1'' = False \<and>
   TotalUsers (Stats (data manager_partial)) = 0 \<and>
   MarkVideoProcessed encoding_json manager_partial disk_partial ''v1'' Second 0 0 =
     Panicked NilMapAssignment (manager_partial, disk_partial) \<and>
   lookup_bool (ProcessedVideos (data manager_partial)) ''v1'' = False \<and>
   TotalVideos (Stats (data manager_partial)) = 0"
proof -
  have l: "Load encoding_json manager5 disk_partial =
      Returned None (manager_partial, disk_partial)"
    by (simp add: Load_def Let_def Unlock_def manager5_def NewManager_def config5_def
        disk_partial_def disk_empty_def encoding_json_def document_empty_def
        manager_partial_def)
  have f: "ckpt_enabled manager_partial" "\<not> mutex manager_partial"
    "ProcessedUsers (data manager_partial) = None"
    "ProcessedVideos (data manager_partial) = None"
    "TotalUsers (Stats (data manager_partial)) = 0"
    "TotalVideos (Stats (data manager_partial)) = 0"
    by (simp_all add: manager_partial_def manager5_def NewManager_def config5_def)
  from l f
    MarkUserProcessed_nil [OF f(1,2,3), of encoding_json disk_partial "''u1''" Second 0 0]
    MarkVideoProcessed_nil [OF f(1,2,4), of encoding_json disk_partial "''v1''" Second 0 0]
  show ?thesis by (simp add: lookup_bool_def)
qed

subsection \<open>Marking twice\<close>

text \<open>
  On an enabled manager whose mutex is free and whose processed-set is allocated,
  \<open>MarkUserProcessed\<close> puts the ID into the processed-set and adds one to \<open>TotalUsers\<close> (in
  64-bit arithmetic). A second call with the same ID, made after the first has
  returned, leaves the set as it is (the same map, hence the same members and the
  same number of them) and adds one to the counter again. The same holds for
  \<open>MarkVideoProcessed\<close> and \<open>TotalVideos\<close>. The state after a call is the state it leaves,
  whether it has returned or waits in the auto-save.
\<close>

theorem MarkProcessed_twice:
  assumes en: "ckpt_enabled m" and free: "\<not> mutex m"
    and users: "ProcessedUsers (data m) = Some us" and videos: "ProcessedVideos (data m) = Some vs"
  shows
    "(let o1 = MarkUserProcessed json m d userID now now1 now2;
          m1 = fst (state_of o1) in
      ProcessedUsers (data m1) = Some (AList.update userID True us) \<and>
      lookup_bool (ProcessedUsers (data m1)) userID \<and>
      TotalUsers (Stats (data m1)) = wrap64 (TotalUsers (Stats (data m)) + 1) \<and>
      (returned o1 \<longrightarrow>
         (let o2 = MarkUserProcessed json m1 (snd (state_of o1)) userID now' now1' now2';
              m2 = fst (state_of o2) in
          ProcessedUsers (data m2) = ProcessedUsers (data m1) \<and>
          TotalUsers (Stats (data m2)) = wrap64 (TotalUsers (Stats (data m1)) + 1) \<and>
          (in_int64 (TotalUsers (Stats (data m))) \<and>
           in_int64 (TotalUsers (Stats (data m)) + 2) \<longrightarrow>
             TotalUsers (Stats (data m2)) = TotalUsers (Stats (data m)) + 2)))) \<and>
     (let o1 = MarkVideoProcessed json m d videoID now now1 now2;
          m1 = fst (state_of o1) in
      ProcessedVideos (data m1) = Some (AList.update videoID True vs) \<and>
      lookup_bool (ProcessedVideos (data m1)) videoID \<and>
      TotalVideos (Stats (data m1)) = wrap64 (TotalVideos (Stats (data m)) + 1) \<and>
      (returned o1 \<longrightarrow>
         (let o2 = MarkVideoProcessed json m1 (snd (state_of o1)) videoID now' now1' now2';
              m2 = fst (state_of o2) in
          ProcessedVideos (data m2) = ProcessedVideos (data m1) \<and>
          TotalVideos (Stats (data m2)) = wrap64 (TotalVideos (Stats (data m1)) + 1) \<and>
          (in_int64 (TotalVideos (Stats (data m))) \<and>
           in_int64 (TotalVideos (Stats (data m)) + 2) \<longrightarrow>
             TotalVideos (Stats (data m2)) = TotalVideos (Stats (data m)) + 2))))"
proof -
  have two: "in_int64 c \<Longrightarrow> in_int64 (c + 2) \<Longrightarrow> wrap64 (wrap64 (c + 1) + 1) = c + 2" for c
  proof -
    assume a: "in_int64 c" "in_int64 (c + 2)"
    then have "in_int64 (c + 1)" by (simp add: in_int64_def)
    then have "wrap64 (c + 1) = c + 1" by (rule wrap64_id)
    moreover have "wrap64 (c + 1 + 1) = c + 1 + 1"
      using a(2) by (intro wrap64_id) (simp add: in_int64_def)
    ultimately show ?thesis by simp
  qed
  have look: "lookup_bool (Some (AList.update k True xs)) k" for k xs
    by (simp add: lookup_bool_def update_conv')
  let ?u1 = "MarkUserProcessed json m d userID now now1 now2"
  let ?mu = "fst (state_of ?u1)"
  note ueq = MarkUserProcessed_eq [OF en free users]
  have u_en: "ckpt_enabled ?mu" using en by (simp add: ueq Let_def)
  have u_free: "returned ?u1 \<Longrightarrow> \<not> mutex ?mu"
    using free by (simp add: ueq Let_def split: if_splits)
  have u_first: "ProcessedUsers (data ?mu) = Some (AList.update userID True us) \<and>
      TotalUsers (Stats (data ?mu)) = wrap64 (TotalUsers (Stats (data m)) + 1)"
    by (simp add: ueq Let_def)
  have u_second: "returned ?u1 \<Longrightarrow>
      (let o2 = MarkUserProcessed json ?mu (snd (state_of ?u1)) userID now' now1' now2';
           m2 = fst (state_of o2) in
       ProcessedUsers (data m2) = ProcessedUsers (data ?mu) \<and>
       TotalUsers (Stats (data m2)) = wrap64 (TotalUsers (Stats (data ?mu)) + 1) \<and>
       (in_int64 (TotalUsers (Stats (data m))) \<and>
        in_int64 (TotalUsers (Stats (data m)) + 2) \<longrightarrow>
          TotalUsers (Stats (data m2)) = TotalUsers (Stats (data m)) + 2))"
  proof -
    assume r: "returned ?u1"
    from u_first have a: "ProcessedUsers (data ?mu) = Some (AList.update userID True us)"
      by simp
    note eq2 = MarkUserProcessed_eq [OF u_en u_free [OF r] a, of json "snd (state_of ?u1)"
        userID now' now1' now2']
    show ?thesis
      unfolding Let_def eq2 using u_first by (simp add: Let_def two)
  qed
  let ?v1 = "MarkVideoProcessed json m d videoID now now1 now2"
  let ?mv = "fst (state_of ?v1)"
  note veq = MarkVideoProcessed_eq [OF en free videos]
  have v_en: "ckpt_enabled ?mv" using en by (simp add: veq Let_def)
  have v_free: "returned ?v1 \<Longrightarrow> \<not> mutex ?mv"
    using free by (simp add: veq Let_def split: if_splits)
  have v_first: "ProcessedVideos (data ?mv) = Some (AList.update videoID True vs) \<and>
      TotalVideos (Stats (data ?mv)) = wrap64 (TotalVideos (Stats (data m)) + 1)"
    by (simp add: veq Let_def)
  have v_second: "returned ?v1 \<Longrightarrow>
      (let o2 = MarkVideoProcessed json ?mv (snd (state_of ?v1)) videoID now' now1' now2';
           m2 = fst (state_of o2) in
       ProcessedVideos (data m2) = ProcessedVideos (data ?mv) \<and>
       TotalVideos (Stats (data m2)) = wrap64 (TotalVideos (Stats (data ?mv)) + 1) \<and>
       (in_int64 (TotalVideos (Stats (data m))) \<and>
        in_int64 (TotalVideos (Stats (data m)) + 2) \<longrightarrow>
          TotalVideos (Stats (data m2)) = TotalVideos (Stats (data m)) + 2))"
  proof -
    assume r: "returned ?v1"
    from v_first have a: "ProcessedVideos (data ?mv) = Some (AList.update videoID True vs)"
      by simp
    note eq2 = MarkVideoProcessed_eq [OF v_en v_free [OF r] a, of json "snd (state_of ?v1)"
        videoID now' now1' now2']
    show ?thesis
      unfolding Let_def eq2 using v_first by (simp add: Let_def two)
  qed
  from u_first have u_look: "lookup_bool (ProcessedUsers (data ?mu)) userID"
    using look [of userID us] by simp
  from v_first have v_look: "lookup_bool (ProcessedVideos (data ?mv)) videoID"
    using look [of videoID vs] by simp
  show ?thesis
    unfolding Let_def using u_first u_look u_second v_first v_look v_second
    by (simp only: Let_def) blast
qed

theorem MarkProcessed_twice_witness:
  "ckpt_enabled manager5 \<and> \<not> mutex manager5 \<and>
   ProcessedUsers (data manager5) = Some [] \<and> ProcessedVideos (data manager5) = Some [] \<and>
   returned (MarkUserProcessed encoding_json manager5 disk_empty ''u1'' Second 0 0) \<and>
   ProcessedUsers (data (fst (state_of
      (MarkUserProcessed encoding_json manager5 disk_empty ''u1'' Second 0 0)))) =
     Some [(''u1'', True)] \<and>
   TotalUsers (Stats (data (fst (state_of
      (MarkUserProcessed encoding_json manager5 disk_empty ''u1'' Second 0 0))))) = 1 \<and>
   TotalUsers (Stats (data (fst (state_of
      (MarkUserProcessed encoding_json
         (fst (state_of (MarkUserProcessed encoding_json manager5 disk_empty ''u1'' Second 0 0)))
         (snd (state_of (MarkUserProcessed encoding_json manager5 disk_empty ''u1'' Second 0 0)))
         ''u1'' (2 * Second) 0 0))))) = 2 \<and>
   ProcessedUsers (data (fst (state_of
      (MarkUserProcessed encoding_json
         (fst (state_of (MarkUserProcessed encoding_json manager5 disk_empty ''u1'' Second 0 0)))
         (snd (state_of (MarkUserProcessed encoding_json manager5 disk_empty ''u1'' Second 0 0)))
         ''u1'' (2 * Second) 0 0)))) = Some [(''u1'', True)] \<and>
   returned (MarkVideoProcessed encoding_json manager5 disk_empty ''v1'' Second 0 0) \<and>
   TotalVideos (Stats (data (fst (state_of
      (MarkVideoProcessed encoding_json
         (fst (state_of (MarkVideoProcessed encoding_json manager5 disk_empty ''v1'' Second 0 0)))
         (snd (state_of (MarkVideoProcessed encoding_json manager5 disk_empty ''v1'' Second 0 0)))
         ''v1'' (2 * Second) 0 0))))) = 2"
proof -
  have en: "ckpt_enabled manager5" and free: "\<not> mutex manager5"
    using manager5_free by simp_all
  have c: "TotalUsers (Stats (data manager5)) = 0" "TotalVideos (Stats (data manager5)) = 0"
    and us: "ProcessedUsers (data manager5) = Some []"
    and vs: "ProcessedVideos (data manager5) = Some []"
    by (simp_all add: manager5_def NewManager_def)
  have r: "returned (MarkUserProcessed encoding_json manager5 disk_empty ''u1'' Second 0 0)"
    "returned (MarkVideoProcessed encoding_json manager5 disk_empty ''v1'' Second 0 0)"
  proof -
    have "\<not> (0 < ckpt_interval manager5 \<and> save_due manager5 Second)"
      by (simp add: save_due_def manager5_def NewManager_def config5_def Second_def)
    then show "returned (MarkUserProcessed encoding_json manager5 disk_empty ''u1'' Second 0 0)"
      and "returned (MarkVideoProcessed encoding_json manager5 disk_empty ''v1'' Second 0 0)"
      using MarkUserProcessed_returned_iff [OF en free, of encoding_json disk_empty "''u1''"
          Second 0 0]
        MarkVideoProcessed_returned_iff [OF en free, of encoding_json disk_empty "''v1''"
          Second 0 0] us vs
      by simp_all
  qed
  from en free r c us vs
    MarkProcessed_twice [OF en free us vs, of encoding_json disk_empty "''u1''" Second 0 0
      "2 * Second" 0 0 "''v1''"]
  show ?thesis
    by (simp add: Let_def wrap64_def in_int64_def)
qed

subsection \<open>The auto-save that is due\<close>

lemma MarkUserProcessed_due:
  assumes "ckpt_enabled m" and "\<not> mutex m" and "0 < ckpt_interval m" and "save_due m now"
  shows "\<not> returned (MarkUserProcessed json m d userID now now1 now2) \<and>
         snd (state_of (MarkUserProcessed json m d userID now now1 now2)) = d"
  using assms MarkUserProcessed_returned_iff [of m json d userID now now1 now2]
    MarkUserProcessed_disk [of json m d userID now now1 now2]
  by simp

text \<open>
  C6, at a concrete input. A manager with a save interval of five seconds that last
  saved at time 0 marks a user at second 5, when the auto-save is due: \<open>CheckSave\<close>
  calls \<open>Save\<close>, which waits in \<open>mutex.Lock\<close> for the mutex that \<open>MarkUserProcessed\<close>
  itself holds. The call does not return and no file is written; \<open>MarkVideoProcessed\<close>
  does the same.
\<close>

theorem MarkProcessed_autosave_blocked:
  "save_due manager5 (5 * Second) \<and>
   MarkUserProcessed encoding_json manager5 disk_empty ''u1'' (5 * Second) (5 * Second)
       (5 * Second) =
     Blocked (manager5\<lparr> data := (data manager5)\<lparr>
                ProcessedUsers := Some [(''u1'', True)],
                Stats := (Stats (data manager5))\<lparr> TotalUsers := 1 \<rparr> \<rparr>,
              mutex := True \<rparr>, disk_empty) \<and>
   MarkVideoProcessed encoding_json manager5 disk_empty ''v1'' (5 * Second) (5 * Second)
       (5 * Second) =
     Blocked (manager5\<lparr> data := (data manager5)\<lparr>
                ProcessedVideos := Some [(''v1'', True)],
                Stats := (Stats (data manager5))\<lparr> TotalVideos := 1 \<rparr> \<rparr>,
              mutex := True \<rparr>, disk_empty)"
  by (simp add: MarkUserProcessed_def MarkVideoProcessed_def CheckSave_def Save_def Let_def
      save_due_def manager5_def NewManager_def config5_def Second_def wrap64_def)

subsection \<open>Strings and maps through the codec\<close>

lemma coerce_valid: "valid_utf8 s \<Longrightarrow> coerce s = s"
proof (induction s rule: valid_utf8.induct)
  case 1
  then show ?case by simp
next
  case (2 b bs)
  show ?case
  proof (cases "rune_len (b # bs)")
    case 0
    with "2.prems" show ?thesis by simp
  next
    case (Suc n)
    with "2.prems" have "valid_utf8 (drop n bs)" by simp
    from "2.IH" [OF Suc this] Suc show ?thesis by simp
  qed
qed

lemma map_of_unmarshal_fold:
  "map_of (foldl (\<lambda>entries (k, v). AList.update (f k) (g v) entries) acc members) =
     map_of acc ++ map_of (rev (map (\<lambda>(k, v). (f k, g v)) members))"
proof (induction members arbitrary: acc)
  case Nil
  show ?case by simp
next
  case (Cons e members)
  obtain k v where e: "e = (k, v)" by (cases e)
  let ?M = "map_of (rev (map (\<lambda>(k, v). (f k, g v)) members))"
  have "map_of (foldl (\<lambda>entries (k, v). AList.update (f k) (g v) entries) acc (e # members)) =
        map_of (AList.update (f k) (g v) acc) ++ ?M"
    by (simp add: Cons.IH e)
  also have "map_of (AList.update (f k) (g v) acc) = map_of acc ++ [f k \<mapsto> g v]"
    by (simp add: update_conv')
  also have "(map_of acc ++ [f k \<mapsto> g v]) ++ ?M = map_of acc ++ ([f k \<mapsto> g v] ++ ?M)"
    by (rule map_add_assoc [symmetric])
  also have "[f k \<mapsto> g v] ++ ?M = map_of (rev (map (\<lambda>(k, v). (f k, g v)) (e # members)))"
    by (simp add: e map_of_append del: map_of.simps) simp
  finally show ?case .
qed

lemma distinct_unmarshal_fold:
  "distinct (map fst acc) \<Longrightarrow>
   distinct (map fst (foldl (\<lambda>entries (k, v). AList.update (f k) (g v) entries) acc members))"
proof (induction members arbitrary: acc)
  case Nil
  then show ?case by simp
next
  case (Cons e members)
  obtain k v where e: "e = (k, v)" by (cases e)
  from Cons.prems have "distinct (map fst (AList.update (f k) (g v) acc))"
    by (rule distinct_update)
  from Cons.IH [OF this] show ?case by (simp add: e)
qed

lemma map_of_rev_distinct: "distinct (map fst ys) \<Longrightarrow> map_of (rev ys) = map_of ys"
  by (metis distinct_rev rev_map map_of_inject_set set_rev)

lemma map_of_sort_key: "distinct (map fst xs) \<Longrightarrow> map_of (sort_key fst xs) = map_of xs"
proof -
  assume d: "distinct (map fst xs)"
  have "mset (map fst (sort_key fst xs)) = mset (map fst xs)" by simp
  then have "distinct (map fst (sort_key fst xs))"
    using d by (metis mset_eq_imp_distinct_iff)
  moreover have "set (sort_key fst xs) = set xs" by simp
  ultimately show ?thesis using d by (simp add: map_of_inject_set)
qed

lemma distinct_sort_key: "distinct (map fst xs) \<Longrightarrow> distinct (map fst (sort_key fst xs))"
proof -
  assume d: "distinct (map fst xs)"
  have "mset (map fst (sort_key fst xs)) = mset (map fst xs)" by simp
  then show ?thesis using d by (metis mset_eq_imp_distinct_iff)
qed

text \<open>A map with valid keys, and values that the codec leaves as they are, comes back
  from the file with the entries it had.\<close>

lemma roundtrip_map:
  assumes d: "distinct (map fst entries)"
    and k: "list_all (\<lambda>e. valid_utf8 (fst e)) entries"
    and v: "\<forall>e \<in> set entries. dec (enc (snd e)) = snd e"
  shows "map_of (unmarshal_map dec (marshal_map enc entries)) = map_of entries \<and>
         distinct (map fst (unmarshal_map dec (marshal_map enc entries)))"
proof -
  let ?sorted = "sort_key fst entries"
  have same: "map (\<lambda>(k, v). (coerce k, dec v)) (map (\<lambda>(k, v). (coerce k, enc v)) ?sorted) = ?sorted"
  proof -
    have pt: "((\<lambda>(k, v). (coerce k, dec v)) \<circ> (\<lambda>(k, v). (coerce k, enc v))) e = e"
      if "e \<in> set ?sorted" for e
    proof -
      from that have m: "e \<in> set entries" by simp
      with k have "valid_utf8 (fst e)" by (simp add: list_all_iff)
      then have "coerce (fst e) = fst e" by (rule coerce_valid)
      moreover from v m have "dec (enc (snd e)) = snd e" by blast
      ultimately show ?thesis by (cases e) simp
    qed
    show ?thesis unfolding map_map by (rule map_idI) (rule pt)
  qed
  have "map_of (unmarshal_map dec (marshal_map enc entries)) = map_of (rev ?sorted)"
    unfolding unmarshal_map_def marshal_map_def
    by (simp only: map_of_unmarshal_fold same) simp
  also have "\<dots> = map_of ?sorted"
    using distinct_sort_key [OF d] by (rule map_of_rev_distinct)
  also have "\<dots> = map_of entries"
    using d by (rule map_of_sort_key)
  finally have "map_of (unmarshal_map dec (marshal_map enc entries)) = map_of entries" .
  moreover have "distinct (map fst (unmarshal_map dec (marshal_map enc entries)))"
    unfolding unmarshal_map_def by (rule distinct_unmarshal_fold) simp
  ultimately show ?thesis by simp
qed

lemma roundtrip_bool_map:
  assumes "is_map mp" and "keys_valid mp"
  shows "entries_of (map_option (unmarshal_map id) (map_option (marshal_map id) mp)) =
           entries_of mp \<and>
         is_map (map_option (unmarshal_map id) (map_option (marshal_map id) mp))"
proof (cases mp)
  case None
  then show ?thesis by (simp add: entries_of_def is_map_def)
next
  case (Some entries)
  with assms have "distinct (map fst entries)" "list_all (\<lambda>e. valid_utf8 (fst e)) entries"
    by (simp_all add: is_map_def keys_valid_def)
  from roundtrip_map [where dec = id and enc = id, OF this] Some show ?thesis
    by (simp add: entries_of_def is_map_def)
qed

lemma roundtrip_string_map:
  assumes "is_map mp" and "keys_valid mp" and "values_valid mp"
  shows "entries_of (map_option (unmarshal_map coerce) (map_option (marshal_map coerce) mp)) =
           entries_of mp \<and>
         is_map (map_option (unmarshal_map coerce) (map_option (marshal_map coerce) mp))"
proof (cases mp)
  case None
  then show ?thesis by (simp add: entries_of_def is_map_def)
next
  case (Some entries)
  with assms have d: "distinct (map fst entries)"
    and k: "list_all (\<lambda>e. valid_utf8 (fst e)) entries"
    and v: "list_all (\<lambda>e. valid_utf8 (snd e)) entries"
    by (simp_all add: is_map_def keys_valid_def values_valid_def)
  have "\<forall>e \<in> set entries. coerce (coerce (snd e)) = snd e"
    using v by (simp add: list_all_iff coerce_valid)
  from roundtrip_map [where dec = coerce and enc = coerce, OF d k this] Some show ?thesis
    by (simp add: entries_of_def is_map_def)
qed

subsection \<open>Save, then Load into a fresh manager\<close>

text \<open>
  C5, as the code has it. Let an enabled manager with a free mutex save to a path that
  can be written and read, let the IDs and cursors it holds be valid UTF-8, and let its
  start time and the time of the save be in the years from 0 to 9999. Then
  \<open>Save\<close> returns without error, and \<open>Load\<close> on a manager newly made by \<open>NewManager\<close> for
  that path returns without error and holds the processed-user and processed-video
  sets, the user and comment cursor maps and the counters of the saved manager. The
  codec is that of \<open>encoding/json\<close>.
\<close>

theorem Save_Load_roundtrip:
  assumes en: "ckpt_enabled m" and free: "\<not> mutex m"
    and cfg: "ckpt_Enabled config \<and> File config = ckpt_file m"
    and wr: "\<not> write_fails d (ckpt_file m)" and rd: "\<not> read_fails d (ckpt_file m)"
    and wf: "well_formed (data m)" and valid: "valid_strings (data m)"
    and times: "json_time (StartTime (data m)) \<and> json_time now1"
  shows "\<exists>m' d' m''.
           Save encoding_json m d now1 now2 = Returned None (m', d') \<and>
           Load encoding_json (NewManager config t1 t2 t3) d' = Returned None (m'', d') \<and>
           entries_of (ProcessedUsers (data m'')) = entries_of (ProcessedUsers (data m)) \<and>
           entries_of (ProcessedVideos (data m'')) = entries_of (ProcessedVideos (data m)) \<and>
           entries_of (UserCursors (data m'')) = entries_of (UserCursors (data m)) \<and>
           entries_of (CommentCursors (data m'')) = entries_of (CommentCursors (data m)) \<and>
           Stats (data m'') = Stats (data m) \<and>
           well_formed (data m'')"
proof -
  let ?dt = "(data m)\<lparr> LastUpdateTime := now1 \<rparr>"
  obtain content where enc: "marshal ?dt = Some content"
    using times by (simp add: marshal_def)
  obtain decoded where dec: "unmarshal content = Some decoded"
    using enc times by (auto simp: marshal_def)
  let ?m' = "m\<lparr> data := ?dt, lastSave := now2 \<rparr>"
  let ?d' = "d\<lparr> files := (files d)(ckpt_file m \<mapsto> content) \<rparr>"
  let ?fresh = "NewManager config t1 t2 t3"
  have save: "Save encoding_json m d now1 now2 = Returned None (?m', ?d')"
    using en free wr enc by (simp add: Save_def Let_def Unlock_def encoding_json_def)
  have fresh: "ckpt_enabled ?fresh" "\<not> mutex ?fresh" "ckpt_file ?fresh = ckpt_file m"
    using cfg by (simp_all add: NewManager_def)
  have load: "Load encoding_json ?fresh ?d' = Returned None (?fresh\<lparr> data := decoded \<rparr>, ?d')"
    using fresh rd dec by (simp add: Load_def Let_def Unlock_def encoding_json_def)
  from wf valid have
    u: "is_map (ProcessedUsers (data m))" "keys_valid (ProcessedUsers (data m))" and
    v: "is_map (ProcessedVideos (data m))" "keys_valid (ProcessedVideos (data m))" and
    uc: "is_map (UserCursors (data m))" "keys_valid (UserCursors (data m))"
      "values_valid (UserCursors (data m))" and
    cc: "is_map (CommentCursors (data m))" "keys_valid (CommentCursors (data m))"
      "values_valid (CommentCursors (data m))"
    by (simp_all add: well_formed_def valid_strings_def)
  from enc dec have fields:
    "ProcessedUsers decoded =
       map_option (unmarshal_map id) (map_option (marshal_map id) (ProcessedUsers (data m)))"
    "ProcessedVideos decoded =
       map_option (unmarshal_map id) (map_option (marshal_map id) (ProcessedVideos (data m)))"
    "UserCursors decoded =
       map_option (unmarshal_map coerce) (map_option (marshal_map coerce) (UserCursors (data m)))"
    "CommentCursors decoded =
       map_option (unmarshal_map coerce)
         (map_option (marshal_map coerce) (CommentCursors (data m)))"
    "Stats decoded = Stats (data m)"
    using times by (auto simp: marshal_def)
  from fields roundtrip_bool_map [OF u] roundtrip_bool_map [OF v]
    roundtrip_string_map [OF uc] roundtrip_string_map [OF cc]
  have "entries_of (ProcessedUsers decoded) = entries_of (ProcessedUsers (data m))"
    "entries_of (ProcessedVideos decoded) = entries_of (ProcessedVideos (data m))"
    "entries_of (UserCursors decoded) = entries_of (UserCursors (data m))"
    "entries_of (CommentCursors decoded) = entries_of (CommentCursors (data m))"
    "Stats decoded = Stats (data m)"
    "well_formed decoded"
    by (simp_all add: well_formed_def)
  with save load show ?thesis by simp
qed

lemma valid_u1: "valid_utf8 ''u1'' \<and> valid_utf8 ''c5''"
  by (simp add: rune_len.simps)

theorem Save_Load_roundtrip_witness:
  "ckpt_enabled manager_u1 \<and> \<not> mutex manager_u1 \<and>
   ckpt_Enabled config5 \<and> File config5 = ckpt_file manager_u1 \<and>
   well_formed (data manager_u1) \<and> valid_strings (data manager_u1) \<and>
   json_time (StartTime (data manager_u1)) \<and> json_time 7 \<and>
   (\<exists>m' d' m''.
      Save encoding_json manager_u1 disk_empty 7 8 = Returned None (m', d') \<and>
      Load encoding_json (NewManager config5 20 21 22) d' = Returned None (m'', d') \<and>
      entries_of (ProcessedUsers (data m'')) = Some [''u1'' \<mapsto> True] \<and>
      entries_of (UserCursors (data m'')) = Some [''u1'' \<mapsto> ''c5''] \<and>
      TotalUsers (Stats (data m'')) = 1)"
proof -
  have en: "ckpt_enabled manager_u1" and free: "\<not> mutex manager_u1"
    and cfg: "ckpt_Enabled config5 \<and> File config5 = ckpt_file manager_u1"
    by (simp_all add: manager_u1_def manager5_def NewManager_def config5_def)
  have wr: "\<not> write_fails disk_empty (ckpt_file manager_u1)"
    and rd: "\<not> read_fails disk_empty (ckpt_file manager_u1)"
    by (simp_all add: disk_empty_def)
  have wf: "well_formed (data manager_u1)"
    by (simp add: well_formed_def is_map_def manager_u1_def manager5_def NewManager_def)
  have valid: "valid_strings (data manager_u1)"
    using valid_u1
    by (simp add: valid_strings_def keys_valid_def values_valid_def manager_u1_def manager5_def
        NewManager_def)
  have times: "json_time (StartTime (data manager_u1)) \<and> json_time 7"
    by (simp add: json_time_def Second_def manager_u1_def manager5_def NewManager_def)
  have e: "entries_of (ProcessedUsers (data manager_u1)) = Some [''u1'' \<mapsto> True]"
    "entries_of (UserCursors (data manager_u1)) = Some [''u1'' \<mapsto> ''c5'']"
    "TotalUsers (Stats (data manager_u1)) = 1"
    by (simp_all add: entries_of_def manager_u1_def manager5_def NewManager_def)
  from Save_Load_roundtrip [OF en free cfg wr rd wf valid times, of 8 20 21 22] e
  have "\<exists>m' d' m''.
      Save encoding_json manager_u1 disk_empty 7 8 = Returned None (m', d') \<and>
      Load encoding_json (NewManager config5 20 21 22) d' = Returned None (m'', d') \<and>
      entries_of (ProcessedUsers (data m'')) = Some [''u1'' \<mapsto> True] \<and>
      entries_of (UserCursors (data m'')) = Some [''u1'' \<mapsto> ''c5''] \<and>
      TotalUsers (Stats (data m'')) = 1"
    by (elim exE conjE) (intro exI conjI, assumption+, simp_all)
  with en free cfg wf valid times show ?thesis by blast
qed

text \<open>
  C5 as the claim has it fails. A manager has marked two user IDs that are not valid
  UTF-8, the bytes FF and FE. \<open>Save\<close> writes both as the replacement character, and
  \<open>Load\<close> into a fresh manager gives a processed-set with that one key: neither ID is in
  it, and it has one member where the saved set had two.
\<close>

theorem Save_Load_invalid_utf8_counterexample:
  "ckpt_enabled manager_ff \<and> \<not> mutex manager_ff \<and>
   returned (Save encoding_json manager_ff disk_empty 7 8) \<and>
   Load encoding_json (NewManager config5 20 21 22)
        (snd (state_of (Save encoding_json manager_ff disk_empty 7 8))) =
     Returned None
       (manager_ff_loaded, snd (state_of (Save encoding_json manager_ff disk_empty 7 8))) \<and>
   ProcessedUsers (data manager_ff) = Some [([CHR 0xFF], True), ([CHR 0xFE], True)] \<and>
   ProcessedUsers (data manager_ff_loaded) = Some [(replacement, True)] \<and>
   lookup_bool (ProcessedUsers (data manager_ff)) [CHR 0xFF] \<and>
   \<not> lookup_bool (ProcessedUsers (data manager_ff_loaded)) [CHR 0xFF] \<and>
   entries_of (ProcessedUsers (data manager_ff_loaded)) \<noteq>
     entries_of (ProcessedUsers (data manager_ff))"
proof -
  have c1: "coerce [CHR 0xFF] = replacement" "coerce [CHR 0xFE] = replacement"
    "coerce replacement = replacement" "coerce [] = []"
    by (simp_all add: rune_len.simps replacement_def cont_def)
  have s: "sort_key fst [([CHR 0xFF], True), ([CHR 0xFE], True)] =
      [([CHR 0xFE], True), ([CHR 0xFF], True)]"
    by simp
  have f: "ckpt_enabled manager_ff" "\<not> mutex manager_ff"
    "ProcessedUsers (data manager_ff) = Some [([CHR 0xFF], True), ([CHR 0xFE], True)]"
    by (simp_all add: manager_ff_def manager5_def NewManager_def config5_def)
  have sv: "Save encoding_json manager_ff disk_empty 7 8 =
      Returned None
        (manager_ff\<lparr> data := (data manager_ff)\<lparr> LastUpdateTime := 7 \<rparr>, lastSave := 8 \<rparr>,
         disk_empty\<lparr> files := [''checkpoint.json'' \<mapsto>
            Snapshot \<lparr> doc_platform = Some [], doc_start_time = Some 0,
              doc_last_update_time = Some 7,
              doc_processed_users = Some [(replacement, True), (replacement, True)],
              doc_processed_videos = Some [], doc_user_cursors = Some [],
              doc_comment_cursors = Some [],
              doc_stats = Some \<lparr> TotalUsers = 2, TotalVideos = 0, TotalComments = 0,
                                 TotalProducts = 0 \<rparr> \<rparr>] \<rparr>)"
    by (simp add: Save_def Let_def Unlock_def encoding_json_def marshal_def marshal_map_def
        json_time_def Second_def manager_ff_def manager5_def NewManager_def config5_def disk_empty_def c1 s
        del: coerce.simps(2))
  have ld: "Load encoding_json (NewManager config5 20 21 22)
        (snd (state_of (Save encoding_json manager_ff disk_empty 7 8))) =
     Returned None
       (manager_ff_loaded, snd (state_of (Save encoding_json manager_ff disk_empty 7 8)))"
    unfolding sv
    by (simp add: Load_def Let_def Unlock_def encoding_json_def unmarshal_map_def
        manager_ff_loaded_def manager_ff_def manager5_def NewManager_def config5_def
        disk_empty_def c1 del: coerce.simps(2))
  have l: "ProcessedUsers (data manager_ff_loaded) = Some [(replacement, True)]"
    by (simp add: manager_ff_loaded_def)
  have ne: "replacement \<noteq> [CHR 0xFF]" by (simp add: replacement_def)
  have a: "lookup_bool (ProcessedUsers (data manager_ff)) [CHR 0xFF]"
    by (simp add: f lookup_bool_def)
  have b: "\<not> lookup_bool (ProcessedUsers (data manager_ff_loaded)) [CHR 0xFF]"
    using ne by (simp add: l lookup_bool_def)
  have "map_of [(replacement, True)] [CHR 0xFF] \<noteq>
        map_of [([CHR 0xFF], True), ([CHR 0xFE], True)] [CHR 0xFF]"
    using ne by simp
  then have "map_of [(replacement, True)] \<noteq> map_of [([CHR 0xFF], True), ([CHR 0xFE], True)]"
    by metis
  then have c: "entries_of (ProcessedUsers (data manager_ff_loaded)) \<noteq>
     entries_of (ProcessedUsers (data manager_ff))"
    by (simp add: f l entries_of_def)
  have r: "returned (Save encoding_json manager_ff disk_empty 7 8)" by (simp add: sv)
  from f r ld l a b c show ?thesis by (intro conjI)
qed

section \<open>Pagination loops: theorems\<close>

subsection \<open>Passes of a loop\<close>

lemma pass_state_Suc_end:
  "pass_state body (Suc k) w cursor retryCount =
     (case pass_state body k w cursor retryCount of
        None \<Rightarrow> None
      | Some (wk, ck, rk) \<Rightarrow>
          (case body wk ck rk of
             Some (Continue w' c' r') \<Rightarrow> Some (w', c', r')
           | _ \<Rightarrow> None))"
proof (induction k arbitrary: w cursor retryCount)
  case 0
  show ?case by (simp split: option.splits flow.splits)
next
  case (Suc k)
  show ?case
  proof (cases "body w cursor retryCount")
    case None
    then show ?thesis by simp
  next
    case (Some fl)
    show ?thesis
    proof (cases fl)
      case (Break w')
      with Some show ?thesis by simp
    next
      case (Continue w' c' r')
      with Some Suc.IH [of w' c' r'] show ?thesis by simp
    qed
  qed
qed

lemma pass_state_add:
  "pass_state body (j + k) w cursor retryCount =
     (case pass_state body j w cursor retryCount of
        None \<Rightarrow> None
      | Some (wj, cj, rj) \<Rightarrow> pass_state body k wj cj rj)"
proof (induction j arbitrary: w cursor retryCount)
  case 0
  show ?case by simp
next
  case (Suc j)
  show ?case
  proof (cases "body w cursor retryCount")
    case None
    then show ?thesis by simp
  next
    case (Some fl)
    then show ?thesis using Suc.IH by (cases fl) simp_all
  qed
qed

text \<open>A loop whose body hands a non-empty cursor on only as a non-empty cursor never
  comes back to the empty cursor.\<close>

lemma pass_state_cursor_nonempty:
  assumes keep: "\<And>w c r w' c' r'. body w c r = Some (Continue w' c' r') \<Longrightarrow> c \<noteq> '''' \<Longrightarrow> c' \<noteq> ''''"
    and "pass_state body k w cursor retryCount = Some (wk, ck, rk)" and "cursor \<noteq> ''''"
  shows "ck \<noteq> ''''"
  using assms(2,3)
proof (induction k arbitrary: w cursor retryCount)
  case 0
  then show ?case by simp
next
  case (Suc k)
  from Suc.prems(1) obtain w' c' r' where
    b: "body w cursor retryCount = Some (Continue w' c' r')"
    and p: "pass_state body k w' c' r' = Some (wk, ck, rk)"
    by (auto split: option.splits flow.splits)
  from keep [OF b Suc.prems(2)] have "c' \<noteq> ''''" .
  from Suc.IH [OF p this] show ?case .
qed

subsection \<open>The crawl of the comments of a video\<close>

lemma foldl_saveCommentData_calls:
  "comment_calls (foldl saveCommentData w comments) = comment_calls w \<and>
   video_calls (foldl saveCommentData w comments) = video_calls w"
  by (induction comments arbitrary: w) (simp_all add: saveCommentData_def)

lemma comments_pass_terminal:
  assumes "GetVideoComments sc (length (comment_calls w)) videoID cursor = Some (comments, next)"
    and "next = '''' \<or> next = cursor"
  shows "crawlVideoComments_pass sc config videoID w cursor retryCount =
           Break (foldl saveCommentData
                    (w\<lparr> comment_calls := comment_calls w @ [(videoID, cursor)] \<rparr>) comments)"
  using assms by (auto simp: crawlVideoComments_pass_def Let_def)

lemma comments_pass_Continue:
  assumes "crawlVideoComments_pass sc config videoID w cursor retryCount = Continue w' c' r'"
  shows "comment_calls w' = comment_calls w @ [(videoID, cursor)] \<and>
         video_calls w' = video_calls w \<and>
         (c' = cursor \<and> GetVideoComments sc (length (comment_calls w)) videoID cursor = None \<or>
          c' \<noteq> '''' \<and> c' \<noteq> cursor \<and>
          (\<exists>comments. GetVideoComments sc (length (comment_calls w)) videoID cursor =
             Some (comments, c')))"
  using assms
  by (auto simp: crawlVideoComments_pass_def Let_def foldl_saveCommentData_calls
      split: option.splits if_splits)

lemma comments_pass_Break:
  assumes "crawlVideoComments_pass sc config videoID w cursor retryCount = Break w'"
  shows "comment_calls w' = comment_calls w @ [(videoID, cursor)] \<and>
         video_calls w' = video_calls w"
  using assms
  by (auto simp: crawlVideoComments_pass_def Let_def foldl_saveCommentData_calls
      split: option.splits if_splits)

lemma comments_loop_from_pass:
  assumes "pass_state (\<lambda>w c r. Some (crawlVideoComments_pass sc config videoID w c r))
             k w cursor retryCount = Some (wk, ck, rk)"
  shows "crawlVideoComments_loop sc config videoID w cursor retryCount =
         crawlVideoComments_loop sc config videoID wk ck rk"
  using assms
proof (induction k arbitrary: w cursor retryCount)
  case 0
  then show ?case by simp
next
  case (Suc k)
  then obtain w' c' r' where
    b: "crawlVideoComments_pass sc config videoID w cursor retryCount = Continue w' c' r'"
    and p: "pass_state (\<lambda>w c r. Some (crawlVideoComments_pass sc config videoID w c r))
              k w' c' r' = Some (wk, ck, rk)"
    by (auto split: flow.splits)
  have "crawlVideoComments_loop sc config videoID w cursor retryCount =
        crawlVideoComments_loop sc config videoID w' c' r'"
    by (subst crawlVideoComments_loop.simps) (simp add: b)
  with Suc.IH [OF p] show ?case by simp
qed

lemma comments_pass_state_length:
  assumes "pass_state (\<lambda>w c r. Some (crawlVideoComments_pass sc config videoID w c r))
             k w cursor retryCount = Some (wk, ck, rk)"
  shows "length (comment_calls wk) = length (comment_calls w) + k"
  using assms
proof (induction k arbitrary: w cursor retryCount)
  case 0
  then show ?case by simp
next
  case (Suc k)
  then obtain w' c' r' where
    b: "crawlVideoComments_pass sc config videoID w cursor retryCount = Continue w' c' r'"
    and p: "pass_state (\<lambda>w c r. Some (crawlVideoComments_pass sc config videoID w c r))
              k w' c' r' = Some (wk, ck, rk)"
    by (auto split: flow.splits)
  from comments_pass_Continue [OF b] Suc.IH [OF p] show ?case by simp
qed

lemma comments_loop_video_calls:
  assumes "crawlVideoComments_loop sc config videoID w cursor retryCount = Some w'"
  shows "video_calls w' = video_calls w"
  using assms
proof (induction rule: crawlVideoComments_loop.raw_induct [rotated 1, consumes 1])
  case (1 loop sc config videoID w cursor retryCount w')
  show ?case
  proof (cases "crawlVideoComments_pass sc config videoID w cursor retryCount")
    case (Break w1)
    with 1(2) comments_pass_Break [OF Break] show ?thesis by simp
  next
    case (Continue w1 c1 r1)
    with 1(2) have "loop sc config videoID w1 c1 r1 = Some w'" by simp
    from 1(1) [OF this] comments_pass_Continue [OF Continue] show ?thesis by simp
  qed
qed

lemma comments_loop_first_call:
  assumes "crawlVideoComments_loop sc config videoID w cursor retryCount = Some w'"
  shows "\<exists>rest. comment_calls w' = comment_calls w @ (videoID, cursor) # rest"
  using assms
proof (induction rule: crawlVideoComments_loop.raw_induct [rotated 1, consumes 1])
  case (1 loop sc config videoID w cursor retryCount w')
  show ?case
  proof (cases "crawlVideoComments_pass sc config videoID w cursor retryCount")
    case (Break w1)
    with 1(2) comments_pass_Break [OF Break] show ?thesis by simp
  next
    case (Continue w1 c1 r1)
    with 1(2) have "loop sc config videoID w1 c1 r1 = Some w'" by simp
    from 1(1) [OF this] comments_pass_Continue [OF Continue] show ?thesis by auto
  qed
qed

subsection \<open>The crawl of the videos of a user\<close>

lemma crawlProductInfo_video_calls:
  "video_calls (crawlProductInfo sc w productID) = video_calls w"
  by (simp add: crawlProductInfo_def Let_def saveProductInfo_def split: option.splits)

lemma range_video_calls:
  assumes "crawlUserVideos_range sc config w videos = Some w'"
  shows "video_calls w' = video_calls w"
  using assms
proof (induction videos arbitrary: w)
  case Nil
  then show ?case by simp
next
  case (Cons video videos)
  from Cons.prems obtain w1 where
    c: "crawlVideoComments sc config (VideoID video) (saveVideoData w video) = Some w1"
    by (auto split: option.splits)
  then have w1: "video_calls w1 = video_calls w"
    using comments_loop_video_calls [of sc config "VideoID video" "saveVideoData w video" "''''" 0 w1]
    by (simp add: crawlVideoComments_def saveVideoData_def)
  let ?w2 = "case ProductInfo video of
               None \<Rightarrow> w1
             | Some productInfo \<Rightarrow>
                 if ProductID productInfo \<noteq> ''''
                 then crawlProductInfo sc w1 (ProductID productInfo)
                 else w1"
  have w2: "video_calls ?w2 = video_calls w1"
    by (simp add: crawlProductInfo_video_calls split: option.splits)
  from Cons.prems c have "crawlUserVideos_range sc config ?w2 videos = Some w'"
    by (simp add: Let_def)
  from Cons.IH [OF this] w1 w2 show ?case by simp
qed

lemma videos_pass_terminal:
  assumes "GetUserVideos sc (length (video_calls w)) userID cursor = Some (videos, next)"
    and "next = '''' \<or> next = cursor"
  shows "crawlUserVideos_pass sc config userID w cursor retryCount =
           map_option Break (crawlUserVideos_range sc config
              (w\<lparr> video_calls := video_calls w @ [(userID, cursor)] \<rparr>) videos)"
  using assms by (auto simp: crawlUserVideos_pass_def Let_def split: option.splits)

lemma videos_pass_Continue:
  assumes "crawlUserVideos_pass sc config userID w cursor retryCount = Some (Continue w' c' r')"
  shows "video_calls w' = video_calls w @ [(userID, cursor)] \<and>
         (c' = cursor \<and> GetUserVideos sc (length (video_calls w)) userID cursor = None \<or>
          c' \<noteq> '''' \<and> c' \<noteq> cursor \<and>
          (\<exists>videos. GetUserVideos sc (length (video_calls w)) userID cursor =
             Some (videos, c')))"
  using assms
  by (auto simp: crawlUserVideos_pass_def Let_def dest!: range_video_calls
      split: option.splits if_splits)

lemma videos_pass_Break:
  assumes "crawlUserVideos_pass sc config userID w cursor retryCount = Some (Break w')"
  shows "video_calls w' = video_calls w @ [(userID, cursor)]"
  using assms
  by (auto simp: crawlUserVideos_pass_def Let_def dest!: range_video_calls
      split: option.splits if_splits)

lemma videos_loop_from_pass:
  assumes "pass_state (crawlUserVideos_pass sc config userID) k w cursor retryCount =
             Some (wk, ck, rk)"
  shows "crawlUserVideos_loop sc config userID w cursor retryCount =
         crawlUserVideos_loop sc config userID wk ck rk"
  using assms
proof (induction k arbitrary: w cursor retryCount)
  case 0
  then show ?case by simp
next
  case (Suc k)
  then obtain w' c' r' where
    b: "crawlUserVideos_pass sc config userID w cursor retryCount = Some (Continue w' c' r')"
    and p: "pass_state (crawlUserVideos_pass sc config userID) k w' c' r' = Some (wk, ck, rk)"
    by (auto split: option.splits flow.splits)
  have "crawlUserVideos_loop sc config userID w cursor retryCount =
        crawlUserVideos_loop sc config userID w' c' r'"
    by (subst crawlUserVideos_loop.simps) (simp add: b)
  with Suc.IH [OF p] show ?case by simp
qed

lemma videos_pass_state_length:
  assumes "pass_state (crawlUserVideos_pass sc config userID) k w cursor retryCount =
             Some (wk, ck, rk)"
  shows "length (video_calls wk) = length (video_calls w) + k"
  using assms
proof (induction k arbitrary: w cursor retryCount)
  case 0
  then show ?case by simp
next
  case (Suc k)
  then obtain w' c' r' where
    b: "crawlUserVideos_pass sc config userID w cursor retryCount = Some (Continue w' c' r')"
    and p: "pass_state (crawlUserVideos_pass sc config userID) k w' c' r' = Some (wk, ck, rk)"
    by (auto split: option.splits flow.splits)
  from videos_pass_Continue [OF b] Suc.IH [OF p] show ?case by simp
qed

lemma videos_loop_first_call:
  assumes "crawlUserVideos_loop sc config userID w cursor retryCount = Some w'"
  shows "\<exists>rest. video_calls w' = video_calls w @ (userID, cursor) # rest"
  using assms
proof (induction rule: crawlUserVideos_loop.raw_induct [rotated 1, consumes 1])
  case (1 loop sc config userID w cursor retryCount w')
  from 1(2) obtain fl where
    fl: "crawlUserVideos_pass sc config userID w cursor retryCount = Some fl"
    by (auto split: option.splits)
  show ?case
  proof (cases fl)
    case (Break w1)
    with 1(2) fl videos_pass_Break [of sc config userID w cursor retryCount w1]
    show ?thesis by simp
  next
    case (Continue w1 c1 r1)
    with 1(2) fl have "loop sc config userID w1 c1 r1 = Some w'" by simp
    from 1(1) [OF this] videos_pass_Continue [of sc config userID w cursor retryCount w1 c1 r1]
      fl Continue
    show ?thesis by auto
  qed
qed

subsection \<open>Termination of the pagination\<close>

lemma comments_terminal_page:
  assumes p: "comments_pass_state sc config videoID k w = Some (wk, ck, rk)"
    and g: "GetVideoComments sc (length (comment_calls wk)) videoID ck = Some (comments, next)"
    and t: "next = '''' \<or> next = ck"
  shows "(\<exists>w'. crawlVideoComments sc config videoID w = Some w' \<and>
                comment_calls w' = comment_calls wk @ [(videoID, ck)] \<and>
                length (comment_calls w') = length (comment_calls w) + k + 1) \<and>
         comments_pass_state sc config videoID (Suc k) w = None"
proof -
  let ?body = "\<lambda>w c r. Some (crawlVideoComments_pass sc config videoID w c r)"
  let ?w' = "foldl saveCommentData (wk\<lparr> comment_calls := comment_calls wk @ [(videoID, ck)] \<rparr>)
               comments"
  from p have ps: "pass_state ?body k w '''' 0 = Some (wk, ck, rk)"
    by (simp add: comments_pass_state_def)
  have br: "crawlVideoComments_pass sc config videoID wk ck rk = Break ?w'"
    using g t by (rule comments_pass_terminal)
  have "crawlVideoComments_loop sc config videoID wk ck rk = Some ?w'"
    by (subst crawlVideoComments_loop.simps) (simp add: br)
  with comments_loop_from_pass [OF ps]
  have ret: "crawlVideoComments sc config videoID w = Some ?w'"
    by (simp add: crawlVideoComments_def)
  have calls: "comment_calls ?w' = comment_calls wk @ [(videoID, ck)]"
    by (simp add: foldl_saveCommentData_calls)
  have len: "length (comment_calls ?w') = length (comment_calls w) + k + 1"
    using comments_pass_state_length [OF ps] by (simp add: calls)
  have "pass_state ?body (Suc k) w '''' 0 = None"
    by (simp add: pass_state_Suc_end ps br del: pass_state.simps)
  then have "comments_pass_state sc config videoID (Suc k) w = None"
    by (simp add: comments_pass_state_def)
  with ret calls len show ?thesis by blast
qed

lemma videos_terminal_page:
  assumes p: "videos_pass_state sc config userID k w = Some (wk, ck, rk)"
    and g: "GetUserVideos sc (length (video_calls wk)) userID ck = Some (videos, next)"
    and t: "next = '''' \<or> next = ck"
  shows "videos_pass_state sc config userID (Suc k) w = None \<and>
         crawlUserVideos sc config userID w =
           crawlUserVideos_range sc config
             (wk\<lparr> video_calls := video_calls wk @ [(userID, ck)] \<rparr>) videos \<and>
         (\<forall>w'. crawlUserVideos sc config userID w = Some w' \<longrightarrow>
            video_calls w' = video_calls wk @ [(userID, ck)] \<and>
            length (video_calls w') = length (video_calls w) + k + 1)"
proof -
  let ?body = "crawlUserVideos_pass sc config userID"
  let ?r = "crawlUserVideos_range sc config
              (wk\<lparr> video_calls := video_calls wk @ [(userID, ck)] \<rparr>) videos"
  from p have ps: "pass_state ?body k w '''' 0 = Some (wk, ck, rk)"
    by (simp add: videos_pass_state_def)
  have br: "crawlUserVideos_pass sc config userID wk ck rk = map_option Break ?r"
    using g t by (rule videos_pass_terminal)
  have "crawlUserVideos_loop sc config userID wk ck rk = ?r"
    by (subst crawlUserVideos_loop.simps) (simp add: br split: option.splits)
  with videos_loop_from_pass [OF ps]
  have ret: "crawlUserVideos sc config userID w = ?r"
    by (simp add: crawlUserVideos_def)
  have "pass_state ?body (Suc k) w '''' 0 = None"
    by (simp add: pass_state_Suc_end ps br del: pass_state.simps split: option.splits)
  then have stop: "videos_pass_state sc config userID (Suc k) w = None"
    by (simp add: videos_pass_state_def)
  have "video_calls w' = video_calls wk @ [(userID, ck)] \<and>
        length (video_calls w') = length (video_calls w) + k + 1"
    if "crawlUserVideos sc config userID w = Some w'" for w'
  proof -
    from that ret have "?r = Some w'" by simp
    from range_video_calls [OF this] videos_pass_state_length [OF ps]
    show ?thesis by simp
  qed
  with ret stop show ?thesis by blast
qed

lemma comments_cursor_after_page:
  assumes p: "comments_pass_state sc config videoID k w = Some (wk, ck, rk)"
    and g: "GetVideoComments sc (length (comment_calls wk)) videoID ck = Some (comments, next)"
    and l: "comments_pass_state sc config videoID (Suc k + j) w = Some (wj, cj, rj)"
  shows "cj \<noteq> ''''"
proof -
  let ?body = "\<lambda>w c r. Some (crawlVideoComments_pass sc config videoID w c r)"
  from p have ps: "pass_state ?body k w '''' 0 = Some (wk, ck, rk)"
    by (simp add: comments_pass_state_def)
  from l have "pass_state ?body (Suc k + j) w '''' 0 = Some (wj, cj, rj)"
    by (simp add: comments_pass_state_def)
  then obtain w1 c1 r1 where
    s: "pass_state ?body (Suc k) w '''' 0 = Some (w1, c1, r1)"
    and r: "pass_state ?body j w1 c1 r1 = Some (wj, cj, rj)"
    by (simp only: pass_state_add split: option.splits prod.splits) auto
  from s ps have "crawlVideoComments_pass sc config videoID wk ck rk = Continue w1 c1 r1"
    by (simp add: pass_state_Suc_end del: pass_state.simps split: flow.splits)
  from comments_pass_Continue [OF this] g have c1: "c1 \<noteq> ''''" by auto
  have keep: "c' \<noteq> ''''"
    if "?body w c r = Some (Continue w' c' r')" and "c \<noteq> ''''" for w c r w' c' r'
    using that comments_pass_Continue [of sc config videoID w c r w' c' r'] by auto
  from pass_state_cursor_nonempty [of ?body, OF keep r c1] show ?thesis .
qed

lemma videos_cursor_after_page:
  assumes p: "videos_pass_state sc config userID k w = Some (wk, ck, rk)"
    and g: "GetUserVideos sc (length (video_calls wk)) userID ck = Some (videos, next)"
    and l: "videos_pass_state sc config userID (Suc k + j) w = Some (wj, cj, rj)"
  shows "cj \<noteq> ''''"
proof -
  let ?body = "crawlUserVideos_pass sc config userID"
  from p have ps: "pass_state ?body k w '''' 0 = Some (wk, ck, rk)"
    by (simp add: videos_pass_state_def)
  from l have "pass_state ?body (Suc k + j) w '''' 0 = Some (wj, cj, rj)"
    by (simp add: videos_pass_state_def)
  then obtain w1 c1 r1 where
    s: "pass_state ?body (Suc k) w '''' 0 = Some (w1, c1, r1)"
    and r: "pass_state ?body j w1 c1 r1 = Some (wj, cj, rj)"
    by (simp only: pass_state_add split: option.splits prod.splits) auto
  from s ps have "crawlUserVideos_pass sc config userID wk ck rk = Some (Continue w1 c1 r1)"
    by (simp add: pass_state_Suc_end del: pass_state.simps split: option.splits flow.splits)
  from videos_pass_Continue [OF this] g have c1: "c1 \<noteq> ''''" by auto
  have keep: "c' \<noteq> ''''"
    if "?body w c r = Some (Continue w' c' r')" and "c \<noteq> ''''" for w c r w' c' r'
    using that videos_pass_Continue [of sc config userID w c r w' c' r'] by auto
  from pass_state_cursor_nonempty [of ?body, OF keep r c1] show ?thesis .
qed

text \<open>
  C1. Let the loop of \<open>crawlVideoComments\<close> come to its pass \<open>k\<close> and let the fetch of that
  pass return a page whose \<open>nextCursor\<close> is empty or is the cursor of the call. Then the
  crawl returns, that fetch is its last one, and it has made \<open>k + 1\<close> fetches; there is
  no pass \<open>k + 1\<close>. After any page, no later pass has the empty cursor. The same holds
  for the loop of \<open>crawlUserVideos\<close> and its fetches \<open>GetUserVideos\<close>: there is no pass
  \<open>k + 1\<close>, and the crawl returns what the handling of the videos of the last page
  returns (it returns when the crawls of their comments do), with that fetch as the
  last of its \<open>k + 1\<close> fetches.
\<close>

theorem pagination_terminates:
  "(comments_pass_state sc config videoID k w = Some (wk, ck, rk) \<and>
    GetVideoComments sc (length (comment_calls wk)) videoID ck = Some (comments, next) \<and>
    (next = '''' \<or> next = ck) \<longrightarrow>
      (\<exists>w'. crawlVideoComments sc config videoID w = Some w' \<and>
            comment_calls w' = comment_calls wk @ [(videoID, ck)] \<and>
            length (comment_calls w') = length (comment_calls w) + k + 1) \<and>
      comments_pass_state sc config videoID (Suc k) w = None) \<and>
   (comments_pass_state sc config videoID k w = Some (wk, ck, rk) \<and>
    GetVideoComments sc (length (comment_calls wk)) videoID ck = Some (comments, next) \<and>
    comments_pass_state sc config videoID (Suc k + j) w = Some (wj, cj, rj) \<longrightarrow>
      cj \<noteq> '''') \<and>
   (videos_pass_state sc config userID n w = Some (vn, cn, rn) \<and>
    GetUserVideos sc (length (video_calls vn)) userID cn = Some (videos, vnext) \<and>
    (vnext = '''' \<or> vnext = cn) \<longrightarrow>
      videos_pass_state sc config userID (Suc n) w = None \<and>
      crawlUserVideos sc config userID w =
        crawlUserVideos_range sc config
          (vn\<lparr> video_calls := video_calls vn @ [(userID, cn)] \<rparr>) videos \<and>
      (\<forall>w'. crawlUserVideos sc config userID w = Some w' \<longrightarrow>
         video_calls w' = video_calls vn @ [(userID, cn)] \<and>
         length (video_calls w') = length (video_calls w) + n + 1)) \<and>
   (videos_pass_state sc config userID n w = Some (vn, cn, rn) \<and>
    GetUserVideos sc (length (video_calls vn)) userID cn = Some (videos, vnext) \<and>
    videos_pass_state sc config userID (Suc n + i) w = Some (vi, ci, ri) \<longrightarrow>
      ci \<noteq> '''')"
proof (intro conjI impI)
  assume h: "comments_pass_state sc config videoID k w = Some (wk, ck, rk) \<and>
    GetVideoComments sc (length (comment_calls wk)) videoID ck = Some (comments, next) \<and>
    (next = '''' \<or> next = ck)"
  from h comments_terminal_page [of sc config videoID k w wk ck rk comments "next"]
  show "\<exists>w'. crawlVideoComments sc config videoID w = Some w' \<and>
            comment_calls w' = comment_calls wk @ [(videoID, ck)] \<and>
            length (comment_calls w') = length (comment_calls w) + k + 1"
    and "comments_pass_state sc config videoID (Suc k) w = None"
    by blast+
next
  assume "comments_pass_state sc config videoID k w = Some (wk, ck, rk) \<and>
    GetVideoComments sc (length (comment_calls wk)) videoID ck = Some (comments, next) \<and>
    comments_pass_state sc config videoID (Suc k + j) w = Some (wj, cj, rj)"
  then show "cj \<noteq> ''''"
    using comments_cursor_after_page [of sc config videoID k w wk ck rk comments "next" j wj cj rj]
    by blast
next
  assume h: "videos_pass_state sc config userID n w = Some (vn, cn, rn) \<and>
    GetUserVideos sc (length (video_calls vn)) userID cn = Some (videos, vnext) \<and>
    (vnext = '''' \<or> vnext = cn)"
  from h videos_terminal_page [of sc config userID n w vn cn rn videos vnext]
  show "videos_pass_state sc config userID (Suc n) w = None"
    and "crawlUserVideos sc config userID w =
        crawlUserVideos_range sc config
          (vn\<lparr> video_calls := video_calls vn @ [(userID, cn)] \<rparr>) videos"
    and "\<forall>w'. crawlUserVideos sc config userID w = Some w' \<longrightarrow>
         video_calls w' = video_calls vn @ [(userID, cn)] \<and>
         length (video_calls w') = length (video_calls w) + n + 1"
    by blast+
next
  assume "videos_pass_state sc config userID n w = Some (vn, cn, rn) \<and>
    GetUserVideos sc (length (video_calls vn)) userID cn = Some (videos, vnext) \<and>
    videos_pass_state sc config userID (Suc n + i) w = Some (vi, ci, ri)"
  then show "ci \<noteq> ''''"
    using videos_cursor_after_page [of sc config userID n w vn cn rn videos vnext i vi ci ri]
    by blast
qed

lemma demo_comments_pass:
  "comments_pass_state scraper_demo config3 ''v1'' (Suc 0) world_empty =
     Some (world_empty\<lparr> comment_calls := [(''v1'', '''')] \<rparr>, '''', 1) \<and>
   comments_pass_state scraper_demo config3 ''v1'' (Suc (Suc 0)) world_empty =
     Some (world_empty\<lparr> comment_calls := [(''v1'', ''''), (''v1'', '''')],
                        saves := [CommentFile ''m1''] \<rparr>, ''k1'', 0)"
  by (simp add: comments_pass_state_def crawlVideoComments_pass_def scraper_demo_def
      config3_def world_empty_def Let_def wrap64_def saveCommentData_def)

lemma demo_videos_pass:
  "videos_pass_state scraper_demo config3 ''u1'' 0 world_empty = Some (world_empty, '''', 0) \<and>
   videos_pass_state scraper_demo config3 ''u1'' (Suc 0) world_empty =
     Some (world_demo\<lparr> video_calls := [(''u1'', '''')] \<rparr>, ''c1'', 0)"
  by (simp add: videos_pass_state_def crawlUserVideos_pass_def
      crawlVideoComments_def crawlVideoComments_loop.simps crawlVideoComments_pass_def
      scraper_demo_def config3_def world_empty_def world_demo_def Let_def wrap64_def
      saveCommentData_def saveVideoData_def crawlProductInfo_def saveProductInfo_def)

theorem pagination_terminates_witness:
  "comments_pass_state scraper_demo config3 ''v1'' (Suc (Suc 0)) world_empty =
     Some (world_empty\<lparr> comment_calls := [(''v1'', ''''), (''v1'', '''')],
                        saves := [CommentFile ''m1''] \<rparr>, ''k1'', 0) \<and>
   GetVideoComments scraper_demo 2 ''v1'' ''k1'' = Some ([], ''k1'') \<and>
   crawlVideoComments scraper_demo config3 ''v1'' world_empty =
     Some (world_empty\<lparr> comment_calls := [(''v1'', ''''), (''v1'', ''''), (''v1'', ''k1'')],
                        saves := [CommentFile ''m1''] \<rparr>) \<and>
   comments_pass_state scraper_demo config3 ''v1'' (Suc (Suc (Suc 0))) world_empty = None \<and>
   GetVideoComments scraper_demo 1 ''v1'' '''' = Some ([\<lparr> CommentID = ''m1'' \<rparr>], ''k1'') \<and>
   ''k1'' \<noteq> '''' \<and>
   videos_pass_state scraper_demo config3 ''u1'' (Suc 0) world_empty =
     Some (world_demo\<lparr> video_calls := [(''u1'', '''')] \<rparr>, ''c1'', 0) \<and>
   GetUserVideos scraper_demo 1 ''u1'' ''c1'' = Some ([], ''c1'') \<and>
   crawlUserVideos scraper_demo config3 ''u1'' world_empty = Some world_demo \<and>
   video_calls world_demo = [(''u1'', ''''), (''u1'', ''c1'')] \<and>
   videos_pass_state scraper_demo config3 ''u1'' (Suc (Suc 0)) world_empty = None \<and>
   ''c1'' \<noteq> ''''"
proof -
  let ?w1 = "world_empty\<lparr> comment_calls := [(''v1'', '''')] \<rparr>"
  let ?w2 = "world_empty\<lparr> comment_calls := [(''v1'', ''''), (''v1'', '''')],
                         saves := [CommentFile ''m1''] \<rparr>"
  let ?v1 = "world_demo\<lparr> video_calls := [(''u1'', '''')] \<rparr>"
  note cp = demo_comments_pass and vp = demo_videos_pass
  have g2: "GetVideoComments scraper_demo (length (comment_calls ?w2)) ''v1'' ''k1'' =
      Some ([], ''k1'')"
    and g1: "GetVideoComments scraper_demo (length (comment_calls ?w1)) ''v1'' '''' =
      Some ([\<lparr> CommentID = ''m1'' \<rparr>], ''k1'')"
    and gv1: "GetUserVideos scraper_demo (length (video_calls ?v1)) ''u1'' ''c1'' =
      Some ([], ''c1'')"
    and gv0: "GetUserVideos scraper_demo (length (video_calls world_empty)) ''u1'' '''' =
      Some ([\<lparr> VideoID = ''v1'', ProductInfo = Some \<lparr> ProductID = ''p1'' \<rparr> \<rparr>], ''c1'')"
    by (simp_all add: scraper_demo_def world_empty_def world_demo_def)
  note last = pagination_terminates [where sc = scraper_demo and config = config3
      and videoID = "''v1''" and k = "Suc (Suc 0)" and w = world_empty and wk = ?w2
      and ck = "''k1''" and rk = 0 and comments = "[]" and ?next = "''k1''"
      and userID = "''u1''" and n = "Suc 0" and vn = ?v1 and cn = "''c1''" and rn = 0
      and videos = "[]" and vnext = "''c1''"]
  note page = pagination_terminates [where sc = scraper_demo and config = config3
      and videoID = "''v1''" and k = "Suc 0" and w = world_empty and wk = ?w1
      and ck = "''''" and rk = 1 and comments = "[\<lparr> CommentID = ''m1'' \<rparr>]"
      and ?next = "''k1''" and j = 0 and wj = ?w2 and cj = "''k1''" and rj = 0
      and userID = "''u1''" and n = 0 and vn = world_empty and cn = "''''" and rn = 0
      and videos = "[\<lparr> VideoID = ''v1'', ProductInfo = Some \<lparr> ProductID = ''p1'' \<rparr> \<rparr>]"
      and vnext = "''c1''" and i = 0 and vi = ?v1 and ci = "''c1''" and ri = 0]
  have c_ret: "crawlVideoComments scraper_demo config3 ''v1'' world_empty =
      Some (world_empty\<lparr> comment_calls := [(''v1'', ''''), (''v1'', ''''), (''v1'', ''k1'')],
                         saves := [CommentFile ''m1''] \<rparr>)"
    by (simp add: crawlVideoComments_def crawlVideoComments_loop.simps
        crawlVideoComments_pass_def scraper_demo_def config3_def world_empty_def Let_def
        wrap64_def saveCommentData_def)
  have c_stop: "comments_pass_state scraper_demo config3 ''v1'' (Suc (Suc (Suc 0))) world_empty
      = None"
    using last cp g2 by simp
  have c_cur: "''k1'' \<noteq> ''''"
    using page cp g1 by simp
  have v_stop: "videos_pass_state scraper_demo config3 ''u1'' (Suc (Suc 0)) world_empty = None"
    and v_ret: "crawlUserVideos scraper_demo config3 ''u1'' world_empty =
      crawlUserVideos_range scraper_demo config3
        (?v1\<lparr> video_calls := video_calls ?v1 @ [(''u1'', ''c1'')] \<rparr>) []"
    using last vp gv1 by simp_all
  have v_cur: "''c1'' \<noteq> ''''"
    using page vp gv0 by simp
  from v_ret have v_ret': "crawlUserVideos scraper_demo config3 ''u1'' world_empty =
      Some world_demo"
    by (simp add: world_demo_def)
  have vc: "video_calls world_demo = [(''u1'', ''''), (''u1'', ''c1'')]"
    by (simp add: world_demo_def)
  have e2: "GetVideoComments scraper_demo 2 ''v1'' ''k1'' = Some ([], ''k1'')"
    and e1: "GetVideoComments scraper_demo 1 ''v1'' '''' =
      Some ([\<lparr> CommentID = ''m1'' \<rparr>], ''k1'')"
    and ev: "GetUserVideos scraper_demo 1 ''u1'' ''c1'' = Some ([], ''c1'')"
    by (simp_all add: scraper_demo_def)
  from cp have cp2: "comments_pass_state scraper_demo config3 ''v1'' (Suc (Suc 0)) world_empty =
     Some (?w2, ''k1'', 0)" by blast
  from vp have vp1: "videos_pass_state scraper_demo config3 ''u1'' (Suc 0) world_empty =
     Some (?v1, ''c1'', 0)" by blast
  from cp2 e2 c_ret c_stop e1 c_cur vp1 ev v_ret' vc v_stop v_cur
  show ?thesis by (intro conjI)
qed

subsection \<open>Where a walk starts, and where its cursor lives\<close>

lemma videos_next_cursor:
  assumes p: "videos_pass_state sc config userID n w = Some (vn, cn, rn)"
    and g: "GetUserVideos sc (length (video_calls vn)) userID cn = Some (videos, vnext)"
    and s: "videos_pass_state sc config userID (Suc n) w = Some (vs, cs, rs)"
  shows "cs = vnext \<and> rs = 0"
proof -
  from p s have "crawlUserVideos_pass sc config userID vn cn rn = Some (Continue vs cs rs)"
    by (simp add: videos_pass_state_def pass_state_Suc_end del: pass_state.simps
        split: option.splits flow.splits)
  with g show ?thesis
    by (auto simp: crawlUserVideos_pass_def Let_def split: option.splits if_splits)
qed

lemma comments_next_cursor:
  assumes p: "comments_pass_state sc config videoID k w = Some (wk, ck, rk)"
    and g: "GetVideoComments sc (length (comment_calls wk)) videoID ck = Some (comments, next)"
    and s: "comments_pass_state sc config videoID (Suc k) w = Some (ws, cs, rs)"
  shows "cs = next \<and> rs = 0"
proof -
  from p s have "crawlVideoComments_pass sc config videoID wk ck rk = Continue ws cs rs"
    by (simp add: comments_pass_state_def pass_state_Suc_end del: pass_state.simps
        split: flow.splits)
  with g show ?thesis
    by (auto simp: crawlVideoComments_pass_def Let_def split: if_splits)
qed

text \<open>
  C3, as the code has it. A walk makes its first fetch with the empty cursor, whatever
  cursor a checkpoint manager of the process holds for the parent, and a walk that
  returns leaves that manager as it was. Pass 0 of the loop starts with the empty
  cursor. After a page, the next pass of the walk, if there is one, starts with the
  returned \<open>nextCursor\<close> and the retry count 0: the cursor lives in the loop variable.
\<close>

theorem walk_starts_with_empty_cursor:
  "(crawlUserVideos_in sc config userID p = Some p' \<longrightarrow>
      (\<exists>rest. video_calls (effects p') = video_calls (effects p) @ (userID, '''') # rest) \<and>
      store p' = store p) \<and>
   (crawlVideoComments_in sc config videoID p = Some p'' \<longrightarrow>
      (\<exists>rest. comment_calls (effects p'') =
         comment_calls (effects p) @ (videoID, '''') # rest) \<and>
      store p'' = store p) \<and>
   videos_pass_state sc config userID 0 w = Some (w, '''', 0) \<and>
   comments_pass_state sc config videoID 0 w = Some (w, '''', 0) \<and>
   (videos_pass_state sc config userID n w = Some (vn, cn, rn) \<and>
    GetUserVideos sc (length (video_calls vn)) userID cn = Some (videos, vnext) \<and>
    videos_pass_state sc config userID (Suc n) w = Some (vs, cs, rs) \<longrightarrow>
      cs = vnext \<and> rs = 0) \<and>
   (comments_pass_state sc config videoID k w = Some (wk, ck, rk) \<and>
    GetVideoComments sc (length (comment_calls wk)) videoID ck = Some (comments, knext) \<and>
    comments_pass_state sc config videoID (Suc k) w = Some (ws, cs', rs') \<longrightarrow>
      cs' = knext \<and> rs' = 0)"
proof (intro conjI impI)
  assume h: "crawlUserVideos_in sc config userID p = Some p'"
  then obtain w' where c: "crawlUserVideos sc config userID (effects p) = Some w'"
    and p': "p' = p\<lparr> effects := w' \<rparr>"
    by (auto simp: crawlUserVideos_in_def split: option.splits)
  from c have "\<exists>rest. video_calls w' = video_calls (effects p) @ (userID, '''') # rest"
    unfolding crawlUserVideos_def by (rule videos_loop_first_call)
  with p' show "\<exists>rest. video_calls (effects p') = video_calls (effects p) @ (userID, '''') # rest"
    by simp
  from p' show "store p' = store p" by simp
next
  assume h: "crawlVideoComments_in sc config videoID p = Some p''"
  then obtain w' where c: "crawlVideoComments sc config videoID (effects p) = Some w'"
    and p'': "p'' = p\<lparr> effects := w' \<rparr>"
    by (auto simp: crawlVideoComments_in_def split: option.splits)
  from c have "\<exists>rest. comment_calls w' = comment_calls (effects p) @ (videoID, '''') # rest"
    unfolding crawlVideoComments_def by (rule comments_loop_first_call)
  with p'' show "\<exists>rest. comment_calls (effects p'') =
      comment_calls (effects p) @ (videoID, '''') # rest"
    by simp
  from p'' show "store p'' = store p" by simp
next
  show "videos_pass_state sc config userID 0 w = Some (w, '''', 0)"
    by (simp add: videos_pass_state_def)
  show "comments_pass_state sc config videoID 0 w = Some (w, '''', 0)"
    by (simp add: comments_pass_state_def)
next
  assume h: "videos_pass_state sc config userID n w = Some (vn, cn, rn) \<and>
    GetUserVideos sc (length (video_calls vn)) userID cn = Some (videos, vnext) \<and>
    videos_pass_state sc config userID (Suc n) w = Some (vs, cs, rs)"
  from h videos_next_cursor [of sc config userID n w vn cn rn videos vnext vs cs rs]
  show "cs = vnext" and "rs = 0" by blast+
next
  assume h: "comments_pass_state sc config videoID k w = Some (wk, ck, rk) \<and>
    GetVideoComments sc (length (comment_calls wk)) videoID ck = Some (comments, knext) \<and>
    comments_pass_state sc config videoID (Suc k) w = Some (ws, cs', rs')"
  from h comments_next_cursor [of sc config videoID k w wk ck rk comments knext ws cs' rs']
  show "cs' = knext" and "rs' = 0" by blast+
qed

lemma demo_crawlUserVideos:
  "crawlUserVideos scraper_demo config3 ''u1'' world_empty = Some world_demo"
  by (simp add: crawlUserVideos_def crawlUserVideos_loop.simps crawlUserVideos_pass_def
      crawlVideoComments_def crawlVideoComments_loop.simps crawlVideoComments_pass_def
      scraper_demo_def config3_def world_empty_def world_demo_def Let_def wrap64_def
      saveCommentData_def saveVideoData_def crawlProductInfo_def saveProductInfo_def)

lemma demo_crawlVideoComments:
  "crawlVideoComments scraper_demo config3 ''v1'' world_empty = Some world_comments"
  by (simp add: crawlVideoComments_def crawlVideoComments_loop.simps crawlVideoComments_pass_def
      scraper_demo_def config3_def world_empty_def world_comments_def Let_def wrap64_def
      saveCommentData_def)

lemma manager_c5_cursors:
  "GetUserCursor manager_c5 ''u1'' = Returned ''c5'' manager_c5 \<and>
   GetCommentCursor manager_c5 ''v1'' = Returned ''k5'' manager_c5"
  by (simp add: manager_c5_def manager5_def NewManager_def config5_def SetUserCursor_def
      SetCommentCursor_def GetUserCursor_def GetCommentCursor_def lookup_string_def)

lemma demo_crawlUserVideos_in:
  "crawlUserVideos_in scraper_demo config3 ''u1'' \<lparr> effects = world_empty, store = manager_c5 \<rparr> =
     Some \<lparr> effects = world_demo, store = manager_c5 \<rparr>"
  by (simp add: crawlUserVideos_in_def demo_crawlUserVideos)

lemma demo_crawlVideoComments_in:
  "crawlVideoComments_in scraper_demo config3 ''v1''
       \<lparr> effects = world_empty, store = manager_c5 \<rparr> =
     Some \<lparr> effects = world_comments, store = manager_c5 \<rparr>"
  by (simp add: crawlVideoComments_in_def demo_crawlVideoComments)

theorem walk_starts_with_empty_cursor_witness:
  "crawlUserVideos_in scraper_demo config3 ''u1'' \<lparr> effects = world_empty, store = manager_c5 \<rparr> =
     Some \<lparr> effects = world_demo, store = manager_c5 \<rparr> \<and>
   (\<exists>rest. video_calls world_demo = video_calls world_empty @ (''u1'', '''') # rest) \<and>
   crawlVideoComments_in scraper_demo config3 ''v1''
       \<lparr> effects = world_empty, store = manager_c5 \<rparr> =
     Some \<lparr> effects = world_comments, store = manager_c5 \<rparr> \<and>
   (\<exists>rest. comment_calls world_comments = comment_calls world_empty @ (''v1'', '''') # rest) \<and>
   videos_pass_state scraper_demo config3 ''u1'' 0 world_empty = Some (world_empty, '''', 0) \<and>
   GetUserVideos scraper_demo (length (video_calls world_empty)) ''u1'' '''' =
     Some ([\<lparr> VideoID = ''v1'', ProductInfo = Some \<lparr> ProductID = ''p1'' \<rparr> \<rparr>], ''c1'') \<and>
   videos_pass_state scraper_demo config3 ''u1'' (Suc 0) world_empty =
     Some (world_demo\<lparr> video_calls := [(''u1'', '''')] \<rparr>, ''c1'', 0) \<and>
   comments_pass_state scraper_demo config3 ''v1'' (Suc 0) world_empty =
     Some (world_empty\<lparr> comment_calls := [(''v1'', '''')] \<rparr>, '''', 1) \<and>
   GetVideoComments scraper_demo
       (length (comment_calls (world_empty\<lparr> comment_calls := [(''v1'', '''')] \<rparr>))) ''v1'' '''' =
     Some ([\<lparr> CommentID = ''m1'' \<rparr>], ''k1'') \<and>
   comments_pass_state scraper_demo config3 ''v1'' (Suc (Suc 0)) world_empty =
     Some (world_empty\<lparr> comment_calls := [(''v1'', ''''), (''v1'', '''')],
                        saves := [CommentFile ''m1''] \<rparr>, ''k1'', 0)"
proof -
  have g: "GetUserVideos scraper_demo (length (video_calls world_empty)) ''u1'' '''' =
     Some ([\<lparr> VideoID = ''v1'', ProductInfo = Some \<lparr> ProductID = ''p1'' \<rparr> \<rparr>], ''c1'')"
    by (simp add: scraper_demo_def world_empty_def)
  have gc: "GetVideoComments scraper_demo
       (length (comment_calls (world_empty\<lparr> comment_calls := [(''v1'', '''')] \<rparr>))) ''v1'' '''' =
     Some ([\<lparr> CommentID = ''m1'' \<rparr>], ''k1'')"
    by (simp add: scraper_demo_def world_empty_def)
  note t = walk_starts_with_empty_cursor [where sc = scraper_demo and config = config3
      and userID = "''u1''" and videoID = "''v1''"
      and p = "\<lparr> effects = world_empty, store = manager_c5 \<rparr>"
      and p' = "\<lparr> effects = world_demo, store = manager_c5 \<rparr>"
      and p'' = "\<lparr> effects = world_comments, store = manager_c5 \<rparr>"
      and w = world_empty and n = 0
      and vn = world_empty and cn = "''''" and rn = 0
      and videos = "[\<lparr> VideoID = ''v1'', ProductInfo = Some \<lparr> ProductID = ''p1'' \<rparr> \<rparr>]"
      and vnext = "''c1''" and vs = "world_demo\<lparr> video_calls := [(''u1'', '''')] \<rparr>"
      and cs = "''c1''" and rs = 0 and k = "Suc 0"
      and wk = "world_empty\<lparr> comment_calls := [(''v1'', '''')] \<rparr>" and ck = "''''" and rk = 1
      and comments = "[\<lparr> CommentID = ''m1'' \<rparr>]" and knext = "''k1''"
      and ws = "world_empty\<lparr> comment_calls := [(''v1'', ''''), (''v1'', '''')],
                        saves := [CommentFile ''m1''] \<rparr>"
      and cs' = "''k1''" and rs' = 0]
  from t demo_crawlUserVideos_in
  have a: "\<exists>rest. video_calls world_demo = video_calls world_empty @ (''u1'', '''') # rest"
    by simp
  from t demo_crawlVideoComments_in
  have b: "\<exists>rest. comment_calls world_comments =
      comment_calls world_empty @ (''v1'', '''') # rest"
    by simp
  from a b demo_crawlUserVideos_in demo_crawlVideoComments_in demo_videos_pass
    demo_comments_pass g gc
  show ?thesis by (intro conjI) blast+
qed

text \<open>
  C3 as the claim has it fails. A manager holds the cursor \<open>c5\<close> for the user \<open>u1\<close> and
  the cursor \<open>k5\<close> for the video \<open>v1\<close>. The walk over the videos of \<open>u1\<close> makes its first
  fetch with the empty cursor, and the walk over the comments of \<open>v1\<close> inside it does
  so too. The fetches succeed and return the cursors \<open>c1\<close> and \<open>k1\<close>; after the crawl the
  manager is the one it was, and holds \<open>c5\<close> and \<open>k5\<close>.
\<close>

theorem walk_resume_counterexample:
  "GetUserCursor manager_c5 ''u1'' = Returned ''c5'' manager_c5 \<and>
   GetCommentCursor manager_c5 ''v1'' = Returned ''k5'' manager_c5 \<and>
   crawlUserVideos_in scraper_demo config3 ''u1'' \<lparr> effects = world_empty, store = manager_c5 \<rparr> =
     Some \<lparr> effects = world_demo, store = manager_c5 \<rparr> \<and>
   hd (video_calls world_demo) = (''u1'', '''') \<and>
   hd (comment_calls world_demo) = (''v1'', '''') \<and>
   GetUserVideos scraper_demo 0 ''u1'' '''' =
     Some ([\<lparr> VideoID = ''v1'', ProductInfo = Some \<lparr> ProductID = ''p1'' \<rparr> \<rparr>], ''c1'') \<and>
   GetVideoComments scraper_demo 1 ''v1'' '''' = Some ([\<lparr> CommentID = ''m1'' \<rparr>], ''k1'') \<and>
   ''c5'' \<noteq> '''' \<and> ''c5'' \<noteq> ''c1'' \<and> ''k5'' \<noteq> '''' \<and> ''k5'' \<noteq> ''k1''"
proof -
  have h: "hd (video_calls world_demo) = (''u1'', '''')"
    "hd (comment_calls world_demo) = (''v1'', '''')"
    by (simp_all add: world_demo_def)
  have g: "GetUserVideos scraper_demo 0 ''u1'' '''' =
     Some ([\<lparr> VideoID = ''v1'', ProductInfo = Some \<lparr> ProductID = ''p1'' \<rparr> \<rparr>], ''c1'')"
    "GetVideoComments scraper_demo 1 ''v1'' '''' = Some ([\<lparr> CommentID = ''m1'' \<rparr>], ''k1'')"
    by (simp_all add: scraper_demo_def)
  from manager_c5_cursors demo_crawlUserVideos_in h g show ?thesis by simp
qed

section \<open>Start and the workers: theorems\<close>

subsection \<open>The loop body of a worker calls GetUserInfo once\<close>

lemma foldl_saveCommentData_user_calls:
  "user_calls (foldl saveCommentData w comments) = user_calls w"
  by (induction comments arbitrary: w) (simp_all add: saveCommentData_def)

lemma comments_pass_user_calls:
  "crawlVideoComments_pass sc config videoID w cursor retryCount = Break w' \<or>
   crawlVideoComments_pass sc config videoID w cursor retryCount = Continue w' c' r' \<Longrightarrow>
   user_calls w' = user_calls w"
  by (auto simp: crawlVideoComments_pass_def Let_def foldl_saveCommentData_user_calls
      split: option.splits if_splits)

lemma comments_loop_user_calls:
  assumes "crawlVideoComments_loop sc config videoID w cursor retryCount = Some w'"
  shows "user_calls w' = user_calls w"
  using assms
proof (induction rule: crawlVideoComments_loop.raw_induct [rotated 1, consumes 1])
  case (1 loop sc config videoID w cursor retryCount w')
  show ?case
  proof (cases "crawlVideoComments_pass sc config videoID w cursor retryCount")
    case (Break w1)
    with 1(2) comments_pass_user_calls [of sc config videoID w cursor retryCount w1]
    show ?thesis by simp
  next
    case (Continue w1 c1 r1)
    with 1(2) have "loop sc config videoID w1 c1 r1 = Some w'" by simp
    from 1(1) [OF this] comments_pass_user_calls [of sc config videoID w cursor retryCount w1 c1 r1]
      Continue
    show ?thesis by simp
  qed
qed

lemma range_user_calls:
  assumes "crawlUserVideos_range sc config w videos = Some w'"
  shows "user_calls w' = user_calls w"
  using assms
proof (induction videos arbitrary: w)
  case Nil
  then show ?case by simp
next
  case (Cons video videos)
  from Cons.prems obtain w1 where
    c: "crawlVideoComments sc config (VideoID video) (saveVideoData w video) = Some w1"
    by (auto split: option.splits)
  then have w1: "user_calls w1 = user_calls w"
    using comments_loop_user_calls [of sc config "VideoID video" "saveVideoData w video" "''''" 0 w1]
    by (simp add: crawlVideoComments_def saveVideoData_def)
  let ?w2 = "case ProductInfo video of
               None \<Rightarrow> w1
             | Some productInfo \<Rightarrow>
                 if ProductID productInfo \<noteq> ''''
                 then crawlProductInfo sc w1 (ProductID productInfo)
                 else w1"
  have w2: "user_calls ?w2 = user_calls w1"
    by (simp add: crawlProductInfo_def Let_def saveProductInfo_def split: option.splits)
  from Cons.prems c have "crawlUserVideos_range sc config ?w2 videos = Some w'"
    by (simp add: Let_def)
  from Cons.IH [OF this] w1 w2 show ?case by simp
qed

lemma videos_pass_user_calls:
  "crawlUserVideos_pass sc config userID w cursor retryCount = Some (Break w') \<or>
   crawlUserVideos_pass sc config userID w cursor retryCount = Some (Continue w' c' r') \<Longrightarrow>
   user_calls w' = user_calls w"
  by (auto simp: crawlUserVideos_pass_def Let_def dest!: range_user_calls
      split: option.splits if_splits)

lemma videos_loop_user_calls:
  assumes "crawlUserVideos_loop sc config userID w cursor retryCount = Some w'"
  shows "user_calls w' = user_calls w"
  using assms
proof (induction rule: crawlUserVideos_loop.raw_induct [rotated 1, consumes 1])
  case (1 loop sc config userID w cursor retryCount w')
  from 1(2) obtain fl where
    fl: "crawlUserVideos_pass sc config userID w cursor retryCount = Some fl"
    by (auto split: option.splits)
  show ?case
  proof (cases fl)
    case (Break w1)
    with 1(2) fl videos_pass_user_calls [of sc config userID w cursor retryCount w1]
    show ?thesis by simp
  next
    case (Continue w1 c1 r1)
    with 1(2) fl have "loop sc config userID w1 c1 r1 = Some w'" by simp
    from 1(1) [OF this] videos_pass_user_calls [of sc config userID w cursor retryCount w1 c1 r1]
      fl Continue
    show ?thesis by simp
  qed
qed

lemma worker_body_user_calls:
  assumes "worker_body sc config w userID = Some w'"
  shows "user_calls w' = user_calls w @ [userID]"
proof (cases "GetUserInfo sc (length (user_calls w)) userID")
  case None
  with assms show ?thesis by (auto simp: worker_body_def Let_def)
next
  case (Some userData)
  with assms have "crawlUserVideos_loop sc config userID
      (saveUserData (w\<lparr> user_calls := user_calls w @ [userID] \<rparr>) userData) '''' 0 = Some w'"
    by (simp add: worker_body_def Let_def crawlUserVideos_def)
  from videos_loop_user_calls [OF this] show ?thesis
    by (simp add: saveUserData_def)
qed

subsection \<open>Workers and the IDs they hold\<close>

lemma held_append_Waiting: "held (ws @ [Waiting]) = held ws"
  by (induction ws rule: held.induct) simp_all

lemma held_receive:
  "i < length ws \<Longrightarrow> ws ! i = Waiting \<Longrightarrow>
   mset (held (ws[i := Working userID])) = add_mset userID (mset (held ws))"
proof (induction ws arbitrary: i rule: held.induct)
  case 1
  then show ?case by simp
next
  case (2 ws)
  then show ?case by (cases i) simp_all
next
  case (3 u ws)
  then show ?case by (cases i) simp_all
next
  case (4 ws)
  then show ?case by (cases i) simp_all
qed

lemma held_finish:
  "i < length ws \<Longrightarrow> ws ! i = Working userID \<Longrightarrow>
   add_mset userID (mset (held (ws[i := Waiting]))) = mset (held ws)"
proof (induction ws arbitrary: i rule: held.induct)
  case 1
  then show ?case by simp
next
  case (2 ws)
  then show ?case by (cases i) simp_all
next
  case (3 u ws)
  then show ?case by (cases i) simp_all
next
  case (4 ws)
  then show ?case by (cases i) simp_all
qed

lemma held_leave:
  "i < length ws \<Longrightarrow> ws ! i = Waiting \<Longrightarrow> held (ws[i := Gone]) = held ws"
proof (induction ws arbitrary: i rule: held.induct)
  case 1
  then show ?case by simp
next
  case (2 ws)
  then show ?case by (cases i) simp_all
next
  case (3 u ws)
  then show ?case by (cases i) simp_all
next
  case (4 ws)
  then show ?case by (cases i) simp_all
qed

lemma held_all_Gone: "list_all (\<lambda>wk. wk = Gone) ws \<Longrightarrow> held ws = []"
  by (induction ws rule: held.induct) simp_all

subsection \<open>Every step keeps the invariant\<close>

lemma Gone_update: "Gone \<in> set (ws[i := wk]) \<Longrightarrow> wk \<noteq> Gone \<Longrightarrow> Gone \<in> set ws"
  by (metis in_set_conv_nth length_list_update nth_list_update_eq nth_list_update_neq)

lemma all_Gone_nth: "list_all (\<lambda>wk. wk = Gone) ws \<Longrightarrow> i < length ws \<Longrightarrow> ws ! i = Gone"
  by (simp add: list_all_length)

lemma step_Launch_inv:
  assumes inv: "crawl_inv config userIDs w s" and st: "step sc config s Launch = Some s'"
  shows "crawl_inv config userIDs w s'"
proof -
  from st have c: "int (length (workers s)) < Concurrency config"
    and s': "s' = s\<lparr> workers := workers s @ [Waiting] \<rparr>"
    by (simp_all split: if_splits)
  from inv c have nc: "\<not> closed s" "\<not> finished s" "Gone \<notin> set (workers s)"
    by (auto simp: crawl_inv_def)
  from inv c nc show ?thesis
    unfolding crawl_inv_def s' by (auto simp: held_append_Waiting)
qed

lemma step_Send_inv:
  assumes inv: "crawl_inv config userIDs w s" and st: "step sc config s Send = Some s'"
  shows "crawl_inv config userIDs w s'"
proof -
  from st have c: "\<not> int (length (workers s)) < Concurrency config" "\<not> closed s"
    "pending s \<noteq> []" "int (length (urlChannel s)) < Concurrency config"
    and s': "s' = s\<lparr> urlChannel := urlChannel s @ [hd (pending s)], pending := tl (pending s) \<rparr>"
    by (simp_all split: if_splits)
  from c(3) have p: "add_mset (hd (pending s)) (mset (tl (pending s))) = mset (pending s)"
    by (cases "pending s") simp_all
  from inv c have nc: "\<not> finished s" "Gone \<notin> set (workers s)"
    by (auto simp: crawl_inv_def)
  from inv have m: "mset (pending s) + mset (urlChannel s) + mset (held (workers s)) +
        mset (map snd (handled s)) = mset userIDs"
    by (simp add: crawl_inv_def)
  have m': "mset (tl (pending s)) + mset (urlChannel s @ [hd (pending s)]) + mset (held (workers s)) +
        mset (map snd (handled s)) = mset userIDs"
    using m p [symmetric] by simp
  from inv c nc m' show ?thesis
    unfolding crawl_inv_def s' by auto
qed

lemma step_Close_inv:
  assumes inv: "crawl_inv config userIDs w s" and st: "step sc config s Close = Some s'"
  shows "crawl_inv config userIDs w s'"
proof -
  from st have c: "\<not> int (length (workers s)) < Concurrency config" "\<not> closed s"
    "pending s = []"
    and s': "s' = s\<lparr> closed := True \<rparr>"
    by (simp_all split: if_splits)
  from inv c have nc: "\<not> finished s" "Gone \<notin> set (workers s)"
    by (auto simp: crawl_inv_def)
  from inv c nc show ?thesis
    unfolding crawl_inv_def s' by auto
qed

lemma step_Return_inv:
  assumes inv: "crawl_inv config userIDs w s" and st: "step sc config s Return = Some s'"
  shows "crawl_inv config userIDs w s'"
proof -
  from st have c: "closed s" "list_all (\<lambda>wk. wk = Gone) (workers s)"
    and s': "s' = s\<lparr> finished := True \<rparr>"
    by (simp_all split: if_splits)
  from inv c show ?thesis
    unfolding crawl_inv_def s' by auto
qed

lemma step_Receive_inv:
  assumes inv: "crawl_inv config userIDs w s" and st: "step sc config s (Receive i) = Some s'"
  shows "crawl_inv config userIDs w s'"
proof -
  from st have c: "i < length (workers s)" "workers s ! i = Waiting" "urlChannel s \<noteq> []"
    and s': "s' = s\<lparr> workers := (workers s)[i := Working (hd (urlChannel s))],
                     urlChannel := tl (urlChannel s) \<rparr>"
    by (simp_all split: if_splits)
  from c(3) have p: "add_mset (hd (urlChannel s)) (mset (tl (urlChannel s))) = mset (urlChannel s)"
    by (cases "urlChannel s") simp_all
  from inv c have g: "Gone \<notin> set (workers s)"
    by (auto simp: crawl_inv_def)
  then have g': "Gone \<notin> set ((workers s)[i := Working (hd (urlChannel s))])"
    using Gone_update [of "workers s" i "Working (hd (urlChannel s))"] by auto
  from inv c have nf: "\<not> finished s"
    using all_Gone_nth [of "workers s" i] by (auto simp: crawl_inv_def)
  from inv have m: "mset (pending s) + mset (urlChannel s) + mset (held (workers s)) +
        mset (map snd (handled s)) = mset userIDs"
    by (simp add: crawl_inv_def)
  have m': "mset (pending s) + mset (tl (urlChannel s)) +
        mset (held ((workers s)[i := Working (hd (urlChannel s))])) +
        mset (map snd (handled s)) = mset userIDs"
    using m p [symmetric] by (simp add: held_receive [OF c(1,2)])
  have l: "int (length (tl (urlChannel s))) \<le> max 0 (Concurrency config)"
    using inv by (auto simp: crawl_inv_def)
  from inv c g' nf m' l show ?thesis
    unfolding crawl_inv_def s' by auto
qed

lemma step_Finish_inv:
  assumes inv: "crawl_inv config userIDs w s" and st: "step sc config s (Finish i) = Some s'"
  shows "crawl_inv config userIDs w s'"
proof -
  from st obtain userID w' where c: "i < length (workers s)" "workers s ! i = Working userID"
    "worker_body sc config (net s) userID = Some w'"
    and s': "s' = s\<lparr> workers := (workers s)[i := Waiting],
                     handled := handled s @ [(i, userID)], net := w' \<rparr>"
    by (auto split: if_splits worker.splits option.splits)
  have g: "Gone \<in> set ((workers s)[i := Waiting]) \<Longrightarrow> Gone \<in> set (workers s)"
    using Gone_update [of "workers s" i Waiting] by auto
  from inv c have nf: "\<not> finished s"
    using all_Gone_nth [of "workers s" i] by (auto simp: crawl_inv_def)
  from inv have m: "mset (pending s) + mset (urlChannel s) + mset (held (workers s)) +
        mset (map snd (handled s)) = mset userIDs"
    by (simp add: crawl_inv_def)
  have m': "mset (pending s) + mset (urlChannel s) + mset (held ((workers s)[i := Waiting])) +
        mset (map snd (handled s @ [(i, userID)])) = mset userIDs"
    using m held_finish [OF c(1,2), symmetric] by simp
  have u: "mset (user_calls w') = mset (user_calls w) + mset (map snd (handled s @ [(i, userID)]))"
    using inv worker_body_user_calls [OF c(3)] by (simp add: crawl_inv_def)
  from inv c g nf m' u show ?thesis
    unfolding crawl_inv_def s' by auto
qed

lemma step_Leave_inv:
  assumes inv: "crawl_inv config userIDs w s" and st: "step sc config s (Leave i) = Some s'"
  shows "crawl_inv config userIDs w s'"
proof -
  from st have c: "i < length (workers s)" "workers s ! i = Waiting" "urlChannel s = []"
    "closed s"
    and s': "s' = s\<lparr> workers := (workers s)[i := Gone] \<rparr>"
    by (simp_all split: if_splits)
  from inv c have nf: "\<not> finished s"
    using all_Gone_nth [of "workers s" i] by (auto simp: crawl_inv_def)
  from inv c nf show ?thesis
    unfolding crawl_inv_def s' by (auto simp: held_leave)
qed

lemma step_inv:
  assumes "crawl_inv config userIDs w s" and "step sc config s a = Some s'"
  shows "crawl_inv config userIDs w s'"
  using assms
  by (cases a)
    (blast intro: step_Launch_inv step_Send_inv step_Close_inv step_Return_inv
      step_Receive_inv step_Finish_inv step_Leave_inv)+

lemma Start_called_inv: "crawl_inv config userIDs w (Start_called w userIDs)"
  by (simp add: crawl_inv_def Start_called_def)

lemma run_inv:
  assumes "crawl_inv config userIDs w s" and "run sc config s as = Some s'"
  shows "crawl_inv config userIDs w s'"
  using assms
proof (induction as arbitrary: s)
  case Nil
  then show ?case by simp
next
  case (Cons a as)
  from Cons.prems(2) obtain s1 where a: "step sc config s a = Some s1"
    and r: "run sc config s1 as = Some s'"
    by (auto split: option.splits)
  from Cons.IH [OF step_inv [OF Cons.prems(1) a] r] show ?case .
qed

subsection \<open>Every step uses up one of the steps left\<close>

lemma filter_update_length:
  "i < length ws \<Longrightarrow>
   length (filter P (ws[i := x])) + (if P (ws ! i) then 1 else 0) =
   length (filter P ws) + (if P x then 1 else 0)"
proof (induction ws arbitrary: i)
  case Nil
  then show ?case by simp
next
  case (Cons a ws)
  show ?case
  proof (cases i)
    case 0
    then show ?thesis by simp
  next
    case (Suc j)
    with Cons.prems have "j < length ws" by simp
    from Cons.IH [OF this] Suc show ?thesis by simp
  qed
qed

lemma step_steps_left:
  assumes "step sc config s a = Some s'"
  shows "steps_left config s = Suc (steps_left config s')"
proof (cases a)
  case Launch
  with assms have c: "int (length (workers s)) < Concurrency config"
    and s': "s' = s\<lparr> workers := workers s @ [Waiting] \<rparr>"
    by (simp_all split: if_splits)
  from c have "length (workers s) < nat (Concurrency config)" by linarith
  then show ?thesis
    unfolding steps_left_def s' by (simp add: held_append_Waiting)
next
  case Send
  with assms have c: "pending s \<noteq> []"
    and s': "s' = s\<lparr> urlChannel := urlChannel s @ [hd (pending s)], pending := tl (pending s) \<rparr>"
    by (simp_all split: if_splits)
  from c have "length (pending s) = Suc (length (tl (pending s)))" by simp
  then show ?thesis
    unfolding steps_left_def s' by simp
next
  case Close
  with assms have c: "\<not> closed s" and s': "s' = s\<lparr> closed := True \<rparr>"
    by (simp_all split: if_splits)
  then show ?thesis
    unfolding steps_left_def s' by simp
next
  case Return
  with assms have c: "\<not> finished s" and s': "s' = s\<lparr> finished := True \<rparr>"
    by (simp_all split: if_splits)
  then show ?thesis
    unfolding steps_left_def s' by simp
next
  case (Receive i)
  with assms have c: "i < length (workers s)" "workers s ! i = Waiting" "urlChannel s \<noteq> []"
    and s': "s' = s\<lparr> workers := (workers s)[i := Working (hd (urlChannel s))],
                     urlChannel := tl (urlChannel s) \<rparr>"
    by (simp_all split: if_splits)
  from c(3) have l: "length (urlChannel s) = Suc (length (tl (urlChannel s)))" by simp
  have "size (mset (held ((workers s)[i := Working (hd (urlChannel s))]))) =
        size (add_mset (hd (urlChannel s)) (mset (held (workers s))))"
    by (simp only: held_receive [OF c(1,2)])
  then have h: "length (held ((workers s)[i := Working (hd (urlChannel s))])) =
        Suc (length (held (workers s)))" by simp
  have f: "length (filter (\<lambda>wk. wk \<noteq> Gone) ((workers s)[i := Working (hd (urlChannel s))])) =
        length (filter (\<lambda>wk. wk \<noteq> Gone) (workers s))"
    using filter_update_length [OF c(1), of "\<lambda>wk. wk \<noteq> Gone" "Working (hd (urlChannel s))"] c(2)
    by simp
  show ?thesis
    unfolding steps_left_def s' using l h f by simp
next
  case (Finish i)
  with assms obtain userID w' where c: "i < length (workers s)" "workers s ! i = Working userID"
    and s': "s' = s\<lparr> workers := (workers s)[i := Waiting],
                     handled := handled s @ [(i, userID)], net := w' \<rparr>"
    by (auto split: if_splits worker.splits option.splits)
  have "size (add_mset userID (mset (held ((workers s)[i := Waiting])))) =
        size (mset (held (workers s)))"
    by (simp only: held_finish [OF c(1,2)])
  then have h: "length (held (workers s)) = Suc (length (held ((workers s)[i := Waiting])))"
    by simp
  have f: "length (filter (\<lambda>wk. wk \<noteq> Gone) ((workers s)[i := Waiting])) =
        length (filter (\<lambda>wk. wk \<noteq> Gone) (workers s))"
    using filter_update_length [OF c(1), of "\<lambda>wk. wk \<noteq> Gone" Waiting] c(2) by simp
  show ?thesis
    unfolding steps_left_def s' using h f by simp
next
  case (Leave i)
  with assms have c: "i < length (workers s)" "workers s ! i = Waiting"
    and s': "s' = s\<lparr> workers := (workers s)[i := Gone] \<rparr>"
    by (simp_all split: if_splits)
  have f: "length (filter (\<lambda>wk. wk \<noteq> Gone) (workers s)) =
        Suc (length (filter (\<lambda>wk. wk \<noteq> Gone) ((workers s)[i := Gone])))"
    using filter_update_length [OF c(1), of "\<lambda>wk. wk \<noteq> Gone" Gone] c(2) by simp
  show ?thesis
    unfolding steps_left_def s' using f by (simp add: held_leave [OF c])
qed

lemma run_steps_left:
  assumes "run sc config s as = Some s'"
  shows "steps_left config s = length as + steps_left config s'"
  using assms
proof (induction as arbitrary: s)
  case Nil
  then show ?case by simp
next
  case (Cons a as)
  from Cons.prems obtain s1 where a: "step sc config s a = Some s1"
    and r: "run sc config s1 as = Some s'"
    by (auto split: option.splits)
  from step_steps_left [OF a] Cons.IH [OF r] show ?case by simp
qed

subsection \<open>A run that has not finished can take a step\<close>

lemma step_possible:
  assumes inv: "crawl_inv config userIDs w s" and c1: "1 \<le> Concurrency config"
    and body: "\<forall>w' userID. worker_body sc config w' userID \<noteq> None"
    and nf: "\<not> finished s"
  shows "\<exists>a. step sc config s a \<noteq> None"
proof (cases "int (length (workers s)) < Concurrency config")
  case True
  then have "step sc config s Launch \<noteq> None" by simp
  then show ?thesis ..
next
  case full: False
  with c1 have ne: "0 < length (workers s)" by linarith
  show ?thesis
  proof (cases "\<exists>i < length (workers s). \<exists>userID. workers s ! i = Working userID")
    case True
    then obtain i userID where i: "i < length (workers s)" "workers s ! i = Working userID"
      by blast
    from body obtain w' where "worker_body sc config (net s) userID = Some w'" by blast
    with i have "step sc config s (Finish i) \<noteq> None" by simp
    then show ?thesis ..
  next
    case idle: False
    show ?thesis
    proof (cases "urlChannel s = []")
      case False
      with inv have "Gone \<notin> set (workers s)" by (auto simp: crawl_inv_def)
      with ne have "workers s ! 0 \<noteq> Gone" by (metis nth_mem)
      moreover from idle ne have "\<forall>userID. workers s ! 0 \<noteq> Working userID" by blast
      ultimately have "workers s ! 0 = Waiting" by (cases "workers s ! 0") auto
      with ne False have "step sc config s (Receive 0) \<noteq> None" by simp
      then show ?thesis ..
    next
      case empty: True
      show ?thesis
      proof (cases "closed s")
        case False
        show ?thesis
        proof (cases "pending s = []")
          case True
          with False full have "step sc config s Close \<noteq> None" by simp
          then show ?thesis ..
        next
          case False
          with \<open>\<not> closed s\<close> full empty c1 have "step sc config s Send \<noteq> None" by simp
          then show ?thesis ..
        qed
      next
        case True
        show ?thesis
        proof (cases "\<exists>i < length (workers s). workers s ! i = Waiting")
          case True
          then obtain i where "i < length (workers s)" "workers s ! i = Waiting" by blast
          with empty \<open>closed s\<close> have "step sc config s (Leave i) \<noteq> None" by simp
          then show ?thesis ..
        next
          case False
          have "workers s ! i = Gone" if "i < length (workers s)" for i
            using that False idle by (cases "workers s ! i") auto
          then have "list_all (\<lambda>wk. wk = Gone) (workers s)"
            by (simp add: list_all_length)
          with True nf have "step sc config s Return \<noteq> None" by simp
          then show ?thesis ..
        qed
      qed
    qed
  qed
qed

subsection \<open>Each seed is handled once\<close>

text \<open>
  C2. In every state that a run of \<open>Start\<close> on \<open>userIDs\<close> can reach, whatever the order of
  the steps of \<open>Start\<close> and of the workers: no user ID has been handled more often than it
  is in \<open>userIDs\<close>, and each handling is by one of the workers launched. When \<open>Start\<close> has
  returned, the handled IDs are exactly \<open>userIDs\<close>, each as often as it is listed,
  \<open>GetUserInfo\<close> has been called once for each, nothing is left in the channel, and all
  workers have left their loop. A run takes at most
  \<open>3 * length userIDs + 2 * Concurrency + 2\<close> steps, and with at least one worker, and
  loop bodies that return, a run that has not finished can take a further step: it
  cannot get stuck with IDs left over.
\<close>

theorem Start_handles_each_seed_once:
  assumes r: "run sc config (Start_called w userIDs) schedule = Some s"
  shows "mset (map snd (handled s)) \<subseteq># mset userIDs \<and>
         (\<forall>e \<in> set (handled s). fst e < length (workers s)) \<and>
         int (length (workers s)) \<le> max 0 (Concurrency config) \<and>
         (finished s \<longrightarrow>
            mset (map snd (handled s)) = mset userIDs \<and>
            list_all (\<lambda>wk. wk = Gone) (workers s) \<and>
            pending s = [] \<and> urlChannel s = [] \<and>
            mset (user_calls (net s)) = mset (user_calls w) + mset userIDs) \<and>
         length schedule \<le> 3 * length userIDs + 2 * nat (Concurrency config) + 2 \<and>
         (1 \<le> Concurrency config \<and> (\<forall>w' userID. worker_body sc config w' userID \<noteq> None) \<and>
          \<not> finished s \<longrightarrow> (\<exists>a. step sc config s a \<noteq> None))"
proof -
  have inv: "crawl_inv config userIDs w s"
    using Start_called_inv r by (rule run_inv)
  have sum: "mset (pending s) + mset (urlChannel s) + mset (held (workers s)) +
        mset (map snd (handled s)) = mset userIDs"
    using inv by (simp add: crawl_inv_def)
  have sub: "mset (map snd (handled s)) \<subseteq># mset userIDs"
    by (subst sum [symmetric]) simp
  have idx: "\<forall>e \<in> set (handled s). fst e < length (workers s)"
    and cap: "int (length (workers s)) \<le> max 0 (Concurrency config)"
    using inv by (simp_all add: crawl_inv_def)
  have fin: "mset (map snd (handled s)) = mset userIDs \<and>
      list_all (\<lambda>wk. wk = Gone) (workers s) \<and> pending s = [] \<and> urlChannel s = [] \<and>
      mset (user_calls (net s)) = mset (user_calls w) + mset userIDs"
    if f: "finished s"
  proof -
    from inv f have cl: "closed s" and gone: "list_all (\<lambda>wk. wk = Gone) (workers s)"
      by (simp_all add: crawl_inv_def)
    from inv cl have p: "pending s = []"
      and full: "\<not> int (length (workers s)) < Concurrency config"
      by (simp_all add: crawl_inv_def)
    have ch: "urlChannel s = []"
    proof (cases "workers s")
      case Nil
      with full have "Concurrency config \<le> 0" by simp
      with inv show ?thesis by (simp add: crawl_inv_def)
    next
      case (Cons wk ws)
      with gone have "Gone \<in> set (workers s)" by simp
      with inv show ?thesis by (simp add: crawl_inv_def)
    qed
    from gone have h: "held (workers s) = []" by (rule held_all_Gone)
    from sum p ch h have all: "mset (map snd (handled s)) = mset userIDs" by simp
    from inv all have "mset (user_calls (net s)) = mset (user_calls w) + mset userIDs"
      by (simp add: crawl_inv_def)
    with all gone p ch show ?thesis by simp
  qed
  have "steps_left config (Start_called w userIDs) = length schedule + steps_left config s"
    using r by (rule run_steps_left)
  then have len: "length schedule \<le> 3 * length userIDs + 2 * nat (Concurrency config) + 2"
    by (simp add: steps_left_def Start_called_def)
  have prog: "\<exists>a. step sc config s a \<noteq> None"
    if "1 \<le> Concurrency config \<and> (\<forall>w' userID. worker_body sc config w' userID \<noteq> None) \<and>
        \<not> finished s"
    using that step_possible [OF inv, of sc] by blast
  from sub idx cap fin len prog show ?thesis by blast
qed

lemma demo_run:
  "run scraper_down config3 (Start_called world_empty [''u1'', ''u2'']) schedule_demo =
     Some crawl_done"
  by (simp add: schedule_demo_def crawl_done_def Start_called_def config3_def world_empty_def
      worker_body_def scraper_down_def Let_def)

theorem Start_handles_each_seed_once_witness:
  "run scraper_down config3 (Start_called world_empty [''u1'', ''u2'']) schedule_demo =
     Some crawl_done \<and>
   finished crawl_done \<and>
   handled crawl_done = [(Suc 0, ''u2''), (0, ''u1'')] \<and>
   mset (map snd (handled crawl_done)) = mset [''u1'', ''u2''] \<and>
   list_all (\<lambda>wk. wk = Gone) (workers crawl_done) \<and>
   mset (user_calls (net crawl_done)) = mset (user_calls world_empty) + mset [''u1'', ''u2''] \<and>
   length schedule_demo \<le> 3 * length [''u1'', ''u2''] + 2 * nat (Concurrency config3) + 2 \<and>
   run scraper_down config3 (Start_called world_empty [''u1'', ''u2'']) [Launch, Launch, Send] =
     Some \<lparr> pending = [''u2''], urlChannel = [''u1''], closed = False,
            workers = [Waiting, Waiting], handled = [], net = world_empty, finished = False \<rparr> \<and>
   1 \<le> Concurrency config3 \<and>
   (\<exists>a. step scraper_down config3
          \<lparr> pending = [''u2''], urlChannel = [''u1''], closed = False,
            workers = [Waiting, Waiting], handled = [], net = world_empty, finished = False \<rparr> a
        \<noteq> None)"
proof -
  let ?mid = "\<lparr> pending = [''u2''], urlChannel = [''u1''], closed = False,
            workers = [Waiting, Waiting], handled = [], net = world_empty, finished = False \<rparr>"
  have mid: "run scraper_down config3 (Start_called world_empty [''u1'', ''u2''])
      [Launch, Launch, Send] = Some ?mid"
    by (simp add: Start_called_def config3_def)
  have body: "\<forall>w' userID. worker_body scraper_down config3 w' userID \<noteq> None"
    by (simp add: worker_body_def scraper_down_def Let_def)
  have c: "1 \<le> Concurrency config3" by (simp add: config3_def)
  have f: "finished crawl_done" "\<not> finished ?mid"
    and h: "handled crawl_done = [(Suc 0, ''u2''), (0, ''u1'')]"
    by (simp_all add: crawl_done_def)
  note whole = Start_handles_each_seed_once [OF demo_run]
  note more = Start_handles_each_seed_once [OF mid]
  from whole f(1) have a: "mset (map snd (handled crawl_done)) = mset [''u1'', ''u2'']"
    "list_all (\<lambda>wk. wk = Gone) (workers crawl_done)"
    "mset (user_calls (net crawl_done)) = mset (user_calls world_empty) + mset [''u1'', ''u2'']"
    "length schedule_demo \<le> 3 * length [''u1'', ''u2''] + 2 * nat (Concurrency config3) + 2"
    by blast+
  from more body c f(2) have b: "\<exists>a. step scraper_down config3 ?mid a \<noteq> None"
    by blast
  from demo_run f(1) h a mid c b show ?thesis by (intro conjI)
qed

end
